theory Spec2Isabelle
  imports Complex_Main
begin

section \<open>Python values and numpy arrays\<close>

text \<open>
  The exceptions the modelled code can raise (the last two are the errors of the
  validation module). Every function that can raise returns \<open>error + 'a\<close>, with
  \<open>Inl\<close> for the exception.
\<close>

datatype error =
  AttributeError | IndexError | TypeError | ValueError | InvalidDirection | InvalidNodes

text \<open>
  A numpy array is its shape together with its entries in row-major order.
  Floating-point entries are modelled by real numbers. All arrays of the program have
  axes of length 1 or 2 (binary nodes), and an axis of length 1 is broadcast.
\<close>

record ndarray =
  shape :: "nat list"
  data :: "real list"

text \<open>
  All index tuples of a shape in row-major order, the position of an index tuple in
  that order, the entry \<^verbatim>\<open>a[idx]\<close>, and the array of a shape whose entries are given by
  a function of the index tuple.
\<close>

fun indices :: "nat list \<Rightarrow> nat list list" where
  "indices [] = [[]]"
| "indices (n # s) = concat (map (\<lambda>i. map (\<lambda>idx. i # idx) (indices s)) [0..<n])"

fun ravel :: "nat list \<Rightarrow> nat list \<Rightarrow> nat" where
  "ravel (n # s) (i # idx) = i * prod_list s + ravel s idx"
| "ravel s idx = 0"

definition item :: "ndarray \<Rightarrow> nat list \<Rightarrow> real" where
  "item a idx = data a ! ravel (shape a) idx"

definition mk_array :: "nat list \<Rightarrow> (nat list \<Rightarrow> real) \<Rightarrow> ndarray" where
  "mk_array s f = \<lparr>shape = s, data = map f (indices s)\<rparr>"

text \<open>\<^verbatim>\<open>np.ones(shape)\<close>, \<^verbatim>\<open>np.array([1])\<close> and \<^verbatim>\<open>np.sum(a)\<close>.\<close>

definition np_ones :: "nat list \<Rightarrow> ndarray" where
  "np_ones s = mk_array s (\<lambda>idx. 1)"

definition np_array_1 :: ndarray where
  "np_array_1 = \<lparr>shape = [1], data = [1]\<rparr>"

definition np_sum :: "ndarray \<Rightarrow> real" where
  "np_sum a = sum_list (data a)"

text \<open>\<^verbatim>\<open>a.sum(axis, keepdims=True)\<close>, \<^verbatim>\<open>a / c\<close> and \<^verbatim>\<open>1 - a\<close>.\<close>

definition sum_keepdims :: "ndarray \<Rightarrow> nat \<Rightarrow> ndarray" where
  "sum_keepdims a axis =
     mk_array ((shape a)[axis := 1])
       (\<lambda>idx. sum_list (map (\<lambda>j. item a (idx[axis := j])) [0..<shape a ! axis]))"

definition divide_scalar :: "ndarray \<Rightarrow> real \<Rightarrow> ndarray" where
  "divide_scalar a c = \<lparr>shape = shape a, data = map (\<lambda>x. x / c) (data a)\<rparr>"

definition one_minus :: "ndarray \<Rightarrow> ndarray" where
  "one_minus a = \<lparr>shape = shape a, data = map (\<lambda>x. 1 - x) (data a)\<rparr>"

text \<open>\<^verbatim>\<open>np.array([a0, a1])\<close> of two arrays of one shape, and \<^verbatim>\<open>a[k]\<close>.\<close>

definition stack2 :: "ndarray \<Rightarrow> ndarray \<Rightarrow> ndarray" where
  "stack2 a0 a1 = \<lparr>shape = 2 # shape a1, data = data a0 @ data a1\<rparr>"

definition select_first :: "ndarray \<Rightarrow> nat \<Rightarrow> ndarray" where
  "select_first a k = mk_array (tl (shape a)) (\<lambda>idx. item a (k # idx))"

text \<open>
  \<^verbatim>\<open>a[..., [v], ...]\<close>: the list index \<^verbatim>\<open>[v]\<close> on one axis and full slices elsewhere keeps
  the axis, with length 1.
\<close>

definition take_keepdims :: "ndarray \<Rightarrow> nat \<Rightarrow> nat \<Rightarrow> ndarray" where
  "take_keepdims a axis v = mk_array ((shape a)[axis := 1]) (\<lambda>idx. item a (idx[axis := v]))"

text \<open>
  Broadcasting: shapes are aligned at their last axis, a missing or length-1 axis is
  repeated. \<open>bview a idx\<close> reads \<open>a\<close> at the index \<open>idx\<close> of the broadcast result.
\<close>

definition pad_shape :: "nat \<Rightarrow> nat list \<Rightarrow> nat list" where
  "pad_shape r s = replicate (r - length s) 1 @ s"

definition broadcastable :: "nat list \<Rightarrow> nat list \<Rightarrow> bool" where
  "broadcastable s t =
     (let r = max (length s) (length t)
      in list_all2 (\<lambda>a b. a = b \<or> a = 1 \<or> b = 1) (pad_shape r s) (pad_shape r t))"

definition broadcast_shape :: "nat list \<Rightarrow> nat list \<Rightarrow> nat list" where
  "broadcast_shape s t =
     (let r = max (length s) (length t) in map2 max (pad_shape r s) (pad_shape r t))"

definition bview :: "ndarray \<Rightarrow> nat list \<Rightarrow> real" where
  "bview a idx =
     item a (map2 (\<lambda>n i. if n = 1 then 0 else i) (shape a)
               (drop (length idx - length (shape a)) idx))"

definition multiply :: "ndarray \<Rightarrow> ndarray \<Rightarrow> error + ndarray" where
  "multiply a b =
     (if broadcastable (shape a) (shape b)
      then Inr (mk_array (broadcast_shape (shape a) (shape b)) (\<lambda>idx. bview a idx * bview b idx))
      else Inl ValueError)"

text \<open>\<^verbatim>\<open>a *= b\<close>: the result must have the shape of \<open>a\<close>.\<close>

definition imultiply :: "ndarray \<Rightarrow> ndarray \<Rightarrow> error + ndarray" where
  "imultiply a b =
     (if broadcastable (shape a) (shape b) \<and> broadcast_shape (shape a) (shape b) = shape a
      then multiply a b else Inl ValueError)"

text \<open>
  \<^verbatim>\<open>a.transpose(list(range(a.ndim))[1:] + [0])\<close> and \<^verbatim>\<open>a.reshape(s)\<close>; reshaping keeps the
  entries in row-major order.
\<close>

definition rotate_first_to_last :: "ndarray \<Rightarrow> ndarray" where
  "rotate_first_to_last a =
     mk_array (tl (shape a) @ [hd (shape a)]) (\<lambda>idx. item a (last idx # butlast idx))"

definition reshape :: "ndarray \<Rightarrow> nat list \<Rightarrow> error + ndarray" where
  "reshape a s =
     (if prod_list s = prod_list (shape a) then Inr \<lparr>shape = s, data = data a\<rparr>
      else Inl ValueError)"

section \<open>Network and Node (node.py)\<close>

text \<open>
  Modelled from the spec: the Network container is not among the sources. It has an
  element count, a joint transition tensor of shape [2,...,2,count] (indexed by a
  network state and a target element, the entry being the probability that the target is
  on) and an optional count-by-count adjacency matrix; equality is by content.
\<close>

record network =
  network_size :: nat
  network_tpm :: ndarray
  network_connectivity_matrix :: "nat list list option"

text \<open>\<^verbatim>\<open>cm[i][j]\<close> on a two-dimensional array.\<close>

definition cm_entry :: "nat list list \<Rightarrow> nat \<Rightarrow> nat \<Rightarrow> error + nat" where
  "cm_entry cm i j =
     (if i < length cm \<and> j < length (cm ! i) then Inr (cm ! i ! j) else Inl IndexError)"

fun select_indices :: "(nat \<Rightarrow> error + nat) \<Rightarrow> nat list \<Rightarrow> error + nat list" where
  "select_indices f [] = Inr []"
| "select_indices f (i # rest) =
     (case f i of
        Inl e \<Rightarrow> Inl e
      | Inr v \<Rightarrow>
          (case select_indices f rest of
             Inl e \<Rightarrow> Inl e
           | Inr kept \<Rightarrow> Inr (if v \<noteq> 0 then i # kept else kept)))"

record node =
  node_network :: network
  node_index :: nat
  node_label :: "string option"
  node_connectivity_matrix :: "nat list list option"
  node_input_indices :: "nat list"
  node_output_indices :: "nat list option"
  node_dimension_labels :: "nat option list"
  node_tpm :: ndarray

text \<open>
  The loop of \<^verbatim>\<open>Node.__init__\<close> that averages out the axes of the nodes that are not
  inputs. The state is the label table, the next label, and the on and off tables.
\<close>

definition marginalize_step ::
  "nat list \<Rightarrow> nat option list \<times> nat \<times> ndarray \<times> ndarray \<Rightarrow> nat
     \<Rightarrow> nat option list \<times> nat \<times> ndarray \<times> ndarray" where
  "marginalize_step input_indices st index =
     (case st of (labels, current, tpm_on, tpm_off) \<Rightarrow>
        if index \<notin> set input_indices
        then (labels @ [None], current,
              divide_scalar (sum_keepdims tpm_on index) 2,
              divide_scalar (sum_keepdims tpm_off index) 2)
        else (labels @ [Some current], current + 1, tpm_on, tpm_off))"

text \<open>
  \<^verbatim>\<open>Node.__init__(network, index, connectivity_matrix=None, label=None)\<close>. The matrix
  given (or the network's, when none is given) is stored, and it decides whether index
  lists are read from a matrix at all; the entries read are those of
  \<^verbatim>\<open>self.network.connectivity_matrix\<close>.
\<close>

definition Node_init ::
  "network \<Rightarrow> nat \<Rightarrow> nat list list option \<Rightarrow> string option \<Rightarrow> error + node" where
  "Node_init net index connectivity_matrix label =
     (let n = network_size net;
          stored = (case connectivity_matrix of
                      None \<Rightarrow> network_connectivity_matrix net
                    | Some m \<Rightarrow> Some m);
          io = (case stored of
                  Some m \<Rightarrow>
                    (case network_connectivity_matrix net of
                       None \<Rightarrow> Inl TypeError
                     | Some ncm \<Rightarrow>
                         (case select_indices (\<lambda>i. cm_entry ncm i index) [0..<n] of
                            Inl e \<Rightarrow> Inl e
                          | Inr ins \<Rightarrow>
                              (case select_indices (\<lambda>i. cm_entry ncm index i) [0..<n] of
                                 Inl e \<Rightarrow> Inl e
                               | Inr outs \<Rightarrow> Inr (ins, Some outs))))
                | None \<Rightarrow> Inr ([0..<n], None))
      in case io of
           Inl e \<Rightarrow> Inl e
         | Inr (ins, outs) \<Rightarrow>
             if n \<le> index then Inl IndexError
             else
               (let tpm_on = mk_array (replicate n 2) (\<lambda>s. item (network_tpm net) (s @ [index]));
                    tpm_off = one_minus tpm_on
                in case foldl (marginalize_step ins) ([], 0, tpm_on, tpm_off) [0..<n] of
                     (labels, current, on, off) \<Rightarrow>
                       Inr \<lparr>node_network = net, node_index = index, node_label = label,
                            node_connectivity_matrix = stored,
                            node_input_indices = ins, node_output_indices = outs,
                            node_dimension_labels = labels,
                            node_tpm = stack2 off on\<rparr>))"

text \<open>\<^verbatim>\<open>Node.__eq__\<close>, \<^verbatim>\<open>Node.__hash__\<close> (the hash of the pair stored at construction; \<open>h\<close>
  is Python's \<^verbatim>\<open>hash\<close> on such pairs) and \<^verbatim>\<open>Node.__lt__\<close>.\<close>

definition node_eq :: "node \<Rightarrow> node \<Rightarrow> bool" where
  "node_eq a b = (node_index a = node_index b \<and> node_network a = node_network b)"

definition node_hash :: "(network \<times> nat \<Rightarrow> int) \<Rightarrow> node \<Rightarrow> int" where
  "node_hash h a = h (node_network a, node_index a)"

definition node_lt :: "node \<Rightarrow> node \<Rightarrow> bool" where
  "node_lt a b = (node_index a < node_index b)"

text \<open>
  Modelled from the spec: \<^verbatim>\<open>network.nodes\<close>, the network's own list of elements, one per
  index, built with the network's adjacency matrix.
\<close>

fun build_nodes :: "(nat \<Rightarrow> error + node) \<Rightarrow> nat list \<Rightarrow> error + node list" where
  "build_nodes f [] = Inr []"
| "build_nodes f (i # rest) =
     (case f i of
        Inl e \<Rightarrow> Inl e
      | Inr nd \<Rightarrow> (case build_nodes f rest of Inl e \<Rightarrow> Inl e | Inr nds \<Rightarrow> Inr (nd # nds)))"

definition network_nodes :: "network \<Rightarrow> error + node list" where
  "network_nodes net = build_nodes (\<lambda>i. Node_init net i None None) [0..<network_size net]"

text \<open>The deferred property \<^verbatim>\<open>Node.inputs\<close>.\<close>

definition inputs :: "node \<Rightarrow> error + node list" where
  "inputs nd =
     (case network_nodes (node_network nd) of
        Inl e \<Rightarrow> Inl e
      | Inr nds \<Rightarrow> Inr (filter (\<lambda>m. node_index m \<in> set (node_input_indices nd)) nds))"

section \<open>Cut and Subsystem (subsystem.py)\<close>

text \<open>
  Modelled from the spec: \<^verbatim>\<open>Cut\<close> is a value object of the models module, a directional
  bipartition of element indices into the severed and the intact part.
\<close>

record cut =
  severed :: "nat list"
  intact :: "nat list"

text \<open>
  Modelled from the spec: \<^verbatim>\<open>utils.apply_cut\<close> produces a new adjacency matrix with the
  severed edges (from a severed element to an intact element) zeroed; no matrix stays
  no matrix.
\<close>

definition apply_cut :: "cut \<Rightarrow> nat list list option \<Rightarrow> nat list list option" where
  "apply_cut c cm =
     map_option
       (\<lambda>m. map (\<lambda>i. map (\<lambda>j. if i \<in> set (severed c) \<and> j \<in> set (intact c) then 0 else m ! i ! j)
                         [0..<length (m ! i)])
                [0..<length m])
       cm"

record subsystem =
  subsystem_node_indices :: "nat list"
  subsystem_null_cut :: cut
  subsystem_nodes :: "node list"
  subsystem_connectivity_matrix :: "nat list list option"
  subsystem_cut :: cut
  subsystem_current_state :: "nat list"
  subsystem_past_state :: "nat list"
  subsystem_network :: network

text \<open>
  \<^verbatim>\<open>Subsystem.__init__(node_indices, current_state, past_state, network, cut=None)\<close>.
  Without a cut the nodes are the network's own; with a cut every node is built anew
  with the cut applied to the adjacency matrix.
\<close>

definition Subsystem_init ::
  "nat list \<Rightarrow> nat list \<Rightarrow> nat list \<Rightarrow> network \<Rightarrow> cut option \<Rightarrow> error + subsystem" where
  "Subsystem_init node_indices current_state past_state net cut_arg =
     (let indices = sort (remdups node_indices);
          null = \<lparr>severed = [], intact = indices\<rparr>
      in case cut_arg of
           None \<Rightarrow>
             (case network_nodes net of
                Inl e \<Rightarrow> Inl e
              | Inr nds \<Rightarrow>
                  if list_all (\<lambda>i. i < length nds) indices
                  then Inr \<lparr>subsystem_node_indices = indices, subsystem_null_cut = null,
                            subsystem_nodes = map (\<lambda>i. nds ! i) indices,
                            subsystem_connectivity_matrix = network_connectivity_matrix net,
                            subsystem_cut = null,
                            subsystem_current_state = current_state,
                            subsystem_past_state = past_state,
                            subsystem_network = net\<rparr>
                  else Inl IndexError)
         | Some c \<Rightarrow>
             (let cm = apply_cut c (network_connectivity_matrix net)
              in case build_nodes (\<lambda>i. Node_init net i cm None) indices of
                   Inl e \<Rightarrow> Inl e
                 | Inr nds \<Rightarrow>
                     Inr \<lparr>subsystem_node_indices = indices, subsystem_null_cut = null,
                          subsystem_nodes = nds,
                          subsystem_connectivity_matrix = cm,
                          subsystem_cut = c,
                          subsystem_current_state = current_state,
                          subsystem_past_state = past_state,
                          subsystem_network = net\<rparr>))"

text \<open>
  \<^verbatim>\<open>Subsystem.__hash__\<close>: the hash, taken at construction, of the tuple of node indices,
  current state, past state and network (\<open>h\<close> is Python's \<^verbatim>\<open>hash\<close> on such tuples).
  \<^verbatim>\<open>Subsystem.__eq__\<close> compares the node sets (by \<^verbatim>\<open>Node.__eq__\<close>), the states and the
  network.
\<close>

definition subsystem_hash ::
  "(nat list \<times> nat list \<times> nat list \<times> network \<Rightarrow> int) \<Rightarrow> subsystem \<Rightarrow> int" where
  "subsystem_hash h s =
     h (subsystem_node_indices s, subsystem_current_state s, subsystem_past_state s,
        subsystem_network s)"

definition node_set_eq :: "node list \<Rightarrow> node list \<Rightarrow> bool" where
  "node_set_eq xs ys =
     (list_all (\<lambda>x. list_ex (node_eq x) ys) xs \<and> list_all (\<lambda>y. list_ex (\<lambda>x. node_eq x y) xs) ys)"

definition subsystem_eq :: "subsystem \<Rightarrow> subsystem \<Rightarrow> bool" where
  "subsystem_eq a b =
     (node_set_eq (subsystem_nodes a) (subsystem_nodes b) \<and>
      subsystem_current_state a = subsystem_current_state b \<and>
      subsystem_past_state a = subsystem_past_state b \<and>
      subsystem_network a = subsystem_network b)"

section \<open>Validation and node sets\<close>

text \<open>
  The two temporal directions are the strings \<^verbatim>\<open>'past'\<close> (cause) and \<^verbatim>\<open>'future'\<close>
  (effect); any other value is \<open>Unknown_direction\<close>.
\<close>

datatype direction = Past | Future | Unknown_direction

text \<open>
  Modelled from the spec: \<^verbatim>\<open>validate.direction\<close> fails with an invalid-direction error
  unless the direction is one of the two; \<^verbatim>\<open>validate.nodelist\<close> deduplicates and sorts
  an element list (elements compare by \<^verbatim>\<open>Node.__eq__\<close> and \<^verbatim>\<open>Node.__lt__\<close>).
\<close>

definition validate_direction :: "direction \<Rightarrow> error + unit" where
  "validate_direction d = (if d = Past \<or> d = Future then Inr () else Inl InvalidDirection)"

definition node_member :: "node \<Rightarrow> node list \<Rightarrow> bool" where
  "node_member x ys = list_ex (node_eq x) ys"

fun dedup_nodes :: "node list \<Rightarrow> node list" where
  "dedup_nodes [] = []"
| "dedup_nodes (x # xs) = x # dedup_nodes (filter (\<lambda>y. \<not> node_eq x y) xs)"

definition validate_nodelist :: "node list \<Rightarrow> error + node list" where
  "validate_nodelist nodes = Inr (sort_key node_index (dedup_nodes nodes))"

text \<open>Python sets of nodes, kept as lists: \<^verbatim>\<open>a & b\<close>, \<^verbatim>\<open>a - b\<close> and \<^verbatim>\<open>a | b\<close>.\<close>

definition node_inter :: "node list \<Rightarrow> node list \<Rightarrow> node list" where
  "node_inter xs ys = filter (\<lambda>x. node_member x ys) xs"

definition node_diff :: "node list \<Rightarrow> node list \<Rightarrow> node list" where
  "node_diff xs ys = filter (\<lambda>x. \<not> node_member x ys) xs"

definition node_union :: "node list \<Rightarrow> node list \<Rightarrow> node list" where
  "node_union xs ys = xs @ node_diff ys xs"

text \<open>A loop whose body may raise.\<close>

fun fold_err :: "('a \<Rightarrow> 'b \<Rightarrow> error + 'a) \<Rightarrow> 'b list \<Rightarrow> 'a \<Rightarrow> error + 'a" where
  "fold_err f [] a = Inr a"
| "fold_err f (x # xs) a = (case f a x of Inl e \<Rightarrow> Inl e | Inr a' \<Rightarrow> fold_err f xs a')"

section \<open>Repertoires (subsystem.py)\<close>

text \<open>The shape with a length-2 axis for every network node in the purview.\<close>

definition purview_shape :: "node list \<Rightarrow> node list \<Rightarrow> nat list" where
  "purview_shape nds purview = map (\<lambda>nd. if node_member nd purview then 2 else 1) nds"

text \<open>
  Modelled from the spec: \<^verbatim>\<open>utils.max_entropy_distribution\<close>, the uniform distribution
  over the states of the purview, as an array with an axis per network node.
\<close>

definition max_entropy_distribution :: "node list \<Rightarrow> network \<Rightarrow> error + ndarray" where
  "max_entropy_distribution purview net =
     (case network_nodes net of
        Inl e \<Rightarrow> Inl e
      | Inr nds \<Rightarrow>
          Inr (mk_array (purview_shape nds purview)
                 (\<lambda>idx. 1 / real (prod_list (purview_shape nds purview)))))"

text \<open>
  Conditioning on the state of one node (the axis of the node keeps length 1) and
  averaging one node out (\<^verbatim>\<open>a.sum(i, keepdims=True) / a.shape[i]\<close>).
\<close>

definition condition_on :: "nat list \<Rightarrow> ndarray \<Rightarrow> node \<Rightarrow> error + ndarray" where
  "condition_on state a nd =
     (let i = node_index nd
      in if length state \<le> i \<or> length (shape a) \<le> i then Inl IndexError
         else if shape a ! i \<le> state ! i then Inl IndexError
         else Inr (take_keepdims a i (state ! i)))"

definition marginalize_out :: "ndarray \<Rightarrow> node \<Rightarrow> error + ndarray" where
  "marginalize_out a nd =
     (let i = node_index nd
      in if length (shape a) \<le> i then Inl ValueError
         else Inr (divide_scalar (sum_keepdims a i) (real (shape a ! i))))"

text \<open>The body of the loop of \<^verbatim>\<open>cause_repertoire\<close> over the mechanism's nodes.\<close>

definition cause_step ::
  "subsystem \<Rightarrow> node list \<Rightarrow> node list \<Rightarrow> ndarray \<Rightarrow> node \<Rightarrow> error + ndarray" where
  "cause_step sub nds purview cjd mechanism_node =
     (case inputs mechanism_node of
        Inl e \<Rightarrow> Inl e
      | Inr ins \<Rightarrow>
          (let i = node_index mechanism_node;
               current = subsystem_current_state sub
           in if length current \<le> i then Inl IndexError
              else if 2 \<le> current ! i then Inl IndexError
              else
                (let conditioned_tpm = select_first (node_tpm mechanism_node) (current ! i);
                     non_purview_inputs = node_inter (dedup_nodes ins) (node_diff nds purview);
                     boundary_inputs = node_diff non_purview_inputs (subsystem_nodes sub);
                     marginal_inputs = node_diff non_purview_inputs boundary_inputs
                 in case fold_err (condition_on (subsystem_past_state sub))
                           boundary_inputs conditioned_tpm of
                      Inl e \<Rightarrow> Inl e
                    | Inr conditioned \<Rightarrow>
                        (case fold_err marginalize_out marginal_inputs conditioned of
                           Inl e \<Rightarrow> Inl e
                         | Inr marginalized \<Rightarrow> imultiply cjd marginalized))))"

text \<open>
  The conditional joint distribution of \<^verbatim>\<open>cause_repertoire\<close> before normalisation
  (for a mechanism and a purview that are validated and not empty).
\<close>

definition cause_cjd :: "subsystem \<Rightarrow> node list \<Rightarrow> node list \<Rightarrow> error + ndarray" where
  "cause_cjd sub mechanism purview =
     (case network_nodes (subsystem_network sub) of
        Inl e \<Rightarrow> Inl e
      | Inr nds \<Rightarrow>
          fold_err (cause_step sub nds purview) mechanism (np_ones (purview_shape nds purview)))"

definition cause_repertoire :: "subsystem \<Rightarrow> node list \<Rightarrow> node list \<Rightarrow> error + ndarray" where
  "cause_repertoire sub mechanism0 purview0 =
     (case validate_nodelist mechanism0 of
        Inl e \<Rightarrow> Inl e
      | Inr mechanism \<Rightarrow>
          (case validate_nodelist purview0 of
             Inl e \<Rightarrow> Inl e
           | Inr purview \<Rightarrow>
               if mechanism = [] then max_entropy_distribution purview (subsystem_network sub)
               else if purview = [] then Inr np_array_1
               else
                 (case cause_cjd sub mechanism purview of
                    Inl e \<Rightarrow> Inl e
                  | Inr cjd \<Rightarrow>
                      (let cjd_sum = np_sum cjd
                       in Inr (if cjd_sum \<noteq> 0 then divide_scalar cjd cjd_sum else cjd)))))"

text \<open>The body of the loop of \<^verbatim>\<open>effect_repertoire\<close> over the purview's nodes.\<close>

definition effect_step ::
  "subsystem \<Rightarrow> node list \<Rightarrow> ndarray \<Rightarrow> node \<Rightarrow> error + ndarray" where
  "effect_step sub mechanism accumulated_cjd purview_node =
     (case inputs purview_node of
        Inl e \<Rightarrow> Inl e
      | Inr ins \<Rightarrow>
          (let n = network_size (subsystem_network sub);
               tpm = rotate_first_to_last (node_tpm purview_node);
               first_half_shape = butlast (shape tpm);
               second_half_shape = (replicate n 1)[node_index purview_node := 2]
           in if n \<le> node_index purview_node then Inl IndexError
              else
                (case reshape tpm (first_half_shape @ second_half_shape) of
                   Inl e \<Rightarrow> Inl e
                 | Inr expanded \<Rightarrow>
                     (let marginal_inputs =
                            node_inter (dedup_nodes ins) (node_diff (subsystem_nodes sub) mechanism)
                      in case fold_err marginalize_out marginal_inputs expanded of
                           Inl e \<Rightarrow> Inl e
                         | Inr marginalized \<Rightarrow> multiply accumulated_cjd marginalized))))"

text \<open>\<^verbatim>\<open>set.union(*[set(node.inputs) for node in purview])\<close>.\<close>

fun inputs_union :: "node list \<Rightarrow> error + node list" where
  "inputs_union [] = Inr []"
| "inputs_union (nd # rest) =
     (case inputs nd of
        Inl e \<Rightarrow> Inl e
      | Inr ins \<Rightarrow>
          (case inputs_union rest of
             Inl e \<Rightarrow> Inl e
           | Inr others \<Rightarrow> Inr (dedup_nodes (ins @ others))))"

definition effect_repertoire :: "subsystem \<Rightarrow> node list \<Rightarrow> node list \<Rightarrow> error + ndarray" where
  "effect_repertoire sub mechanism0 purview0 =
     (case validate_nodelist mechanism0 of
        Inl e \<Rightarrow> Inl e
      | Inr mechanism \<Rightarrow>
          (case validate_nodelist purview0 of
             Inl e \<Rightarrow> Inl e
           | Inr purview \<Rightarrow>
               if purview = [] then Inr np_array_1
               else
                 (case network_nodes (subsystem_network sub) of
                    Inl e \<Rightarrow> Inl e
                  | Inr nds \<Rightarrow>
                      (let n = network_size (subsystem_network sub)
                       in case fold_err (effect_step sub mechanism) purview
                                 (np_ones (replicate n 1 @ purview_shape nds purview)) of
                            Inl e \<Rightarrow> Inl e
                          | Inr accumulated_cjd \<Rightarrow>
                              (case inputs_union purview of
                                 Inl e \<Rightarrow> Inl e
                               | Inr inputs_to_purview \<Rightarrow>
                                   (let external_nodes = node_diff nds (subsystem_nodes sub);
                                        boundary_inputs =
                                          node_inter inputs_to_purview
                                            (node_union mechanism external_nodes)
                                    in case fold_err (condition_on (subsystem_current_state sub))
                                              boundary_inputs accumulated_cjd of
                                         Inl e \<Rightarrow> Inl e
                                       | Inr conditioned \<Rightarrow>
                                           reshape conditioned
                                             (take n (drop n (shape conditioned)))))))))"

text \<open>\<^verbatim>\<open>_get_repertoire\<close> and \<^verbatim>\<open>_unconstrained_repertoire\<close>.\<close>

definition get_repertoire ::
  "subsystem \<Rightarrow> direction \<Rightarrow> (node list \<Rightarrow> node list \<Rightarrow> error + ndarray) option" where
  "get_repertoire sub d =
     (if d = Past then Some (cause_repertoire sub)
      else if d = Future then Some (effect_repertoire sub)
      else None)"

definition unconstrained_repertoire ::
  "subsystem \<Rightarrow> direction \<Rightarrow> node list \<Rightarrow> error + ndarray" where
  "unconstrained_repertoire sub d purview =
     (case get_repertoire sub d of None \<Rightarrow> Inl TypeError | Some repertoire \<Rightarrow> repertoire [] purview)"

section \<open>Value objects and the parts of the program that are not among the sources\<close>

text \<open>
  Modelled from the spec: the value objects of the models module. A \<^verbatim>\<open>Part\<close> is one
  side of a bipartition; a \<^verbatim>\<open>Mip\<close> holds the winning bipartition of a search, both
  repertoires and its phi; a \<^verbatim>\<open>Mice\<close> holds the winning purview of a mechanism in one
  direction; a \<^verbatim>\<open>Concept\<close> holds a mechanism, both Mice, phi and its location; a
  \<^verbatim>\<open>BigMip\<close> holds the winning cut of a subsystem, both constellations and phi.
  Absent fields (\<^verbatim>\<open>None\<close>) are \<open>None\<close>.
\<close>

record part =
  part_mechanism :: "node list"
  part_purview :: "node list"

record mip =
  mip_direction :: direction
  mip_mechanism :: "node list"
  mip_purview :: "node list"
  mip_partition :: "(part \<times> part) option"
  mip_unpartitioned_repertoire :: "ndarray option"
  mip_partitioned_repertoire :: "ndarray option"
  mip_phi :: real

record mice =
  mice_direction :: direction
  mice_mechanism :: "nat list"
  mice_purview :: "nat list"
  mice_repertoire :: "ndarray option"
  mice_mip :: mip
  mice_phi :: real

record concept =
  concept_mechanism :: "nat list"
  concept_location :: "ndarray \<times> ndarray"
  concept_phi :: real
  concept_cause :: "mice option"
  concept_effect :: "mice option"

record bigmip =
  bigmip_subsystem :: subsystem
  bigmip_phi :: real
  bigmip_cut :: cut
  bigmip_unpartitioned_constellation :: "concept list option"
  bigmip_partitioned_constellation :: "concept list option"

text \<open>
  What the program takes from modules that are not among the sources, as parameters:
  the options \<^verbatim>\<open>EPSILON\<close> and \<^verbatim>\<open>SINGLE_NODES_WITH_SELFLOOPS_HAVE_PHI\<close>; the distance
  \<^verbatim>\<open>utils.hamming_emd\<close> between two repertoires; the solver \<^verbatim>\<open>utils.emd\<close>;
  \<^verbatim>\<open>utils.bipartition\<close> on tuples of nodes and on tuples of indices; the order of
  \<^verbatim>\<open>Mip\<close> values that \<^verbatim>\<open>max\<close> uses and the order of \<^verbatim>\<open>BigMip\<close> values that \<^verbatim>\<open>min\<close>
  uses; Python's \<^verbatim>\<open>hash\<close> on the tuple a subsystem hashes, and the hash of a
  \<^verbatim>\<open>Mechanism\<close>.
\<close>

record env =
  EPSILON :: real
  SINGLE_NODES_WITH_SELFLOOPS_HAVE_PHI :: bool
  hamming_emd :: "ndarray \<Rightarrow> ndarray \<Rightarrow> real"
  emd :: "real list \<Rightarrow> real list \<Rightarrow> real list list \<Rightarrow> real"
  bipartition_nodes :: "node list \<Rightarrow> (node list \<times> node list) list"
  bipartition_indices :: "nat list \<Rightarrow> (nat list \<times> nat list) list"
  mip_gt :: "mip option \<Rightarrow> mip option \<Rightarrow> error + bool"
  bigmip_lt :: "bigmip \<Rightarrow> bigmip \<Rightarrow> error + bool"
  hash_tuple :: "nat list \<times> nat list \<times> nat list \<times> network \<Rightarrow> int"
  hash_mechanism :: "node list \<Rightarrow> error + int"

text \<open>
  Modelled from the spec: \<^verbatim>\<open>utils.powerset\<close> enumerates the subsets, the empty one
  included (here by increasing size, as the itertools recipe does).
\<close>

definition powerset :: "'a list \<Rightarrow> 'a list list" where
  "powerset xs =
     concat (map (\<lambda>r. filter (\<lambda>ys. length ys = r) (subseqs xs)) [0..<Suc (length xs)])"

text \<open>
  Modelled from the spec: \<^verbatim>\<open>utils.bipartition\<close> enumerates the bipartitions of a
  sequence, the trivial split into nothing and everything first. The split number
  \<open>k\<close> puts the element at position \<open>i\<close> into the first part when bit \<open>i\<close> of \<open>k\<close> is
  set. It instantiates the two parameters above in the examples.
\<close>

definition bipartition :: "'a list \<Rightarrow> ('a list \<times> 'a list) list" where
  "bipartition xs =
     (if xs = [] then []
      else map (\<lambda>k. (map (\<lambda>i. xs ! i) (filter (\<lambda>i. odd (k div 2 ^ i)) [0..<length xs]),
                     map (\<lambda>i. xs ! i) (filter (\<lambda>i. even (k div 2 ^ i)) [0..<length xs])))
             [0..<2 ^ (length xs - 1)])"

section \<open>Connectivity tests (subsystem.py)\<close>

text \<open>
  The entries of the node lists handed to \<^verbatim>\<open>_test_connections\<close> are Python objects:
  node objects or plain integers. Reading the attribute \<^verbatim>\<open>index\<close> of an integer raises
  \<^verbatim>\<open>AttributeError\<close>. An integer never equals a node.
\<close>

datatype pyval = PyInt nat | PyNode node

definition attr_index :: "pyval \<Rightarrow> error + nat" where
  "attr_index v = (case v of PyNode nd \<Rightarrow> Inr (node_index nd) | PyInt i \<Rightarrow> Inl AttributeError)"

definition py_eq :: "pyval \<Rightarrow> pyval \<Rightarrow> bool" where
  "py_eq a b =
     (case (a, b) of
        (PyInt i, PyInt j) \<Rightarrow> i = j
      | (PyNode x, PyNode y) \<Rightarrow> node_eq x y
      | _ \<Rightarrow> False)"

fun map_err :: "('a \<Rightarrow> error + 'b) \<Rightarrow> 'a list \<Rightarrow> error + 'b list" where
  "map_err f [] = Inr []"
| "map_err f (x # xs) =
     (case f x of
        Inl e \<Rightarrow> Inl e
      | Inr y \<Rightarrow> (case map_err f xs of Inl e \<Rightarrow> Inl e | Inr ys \<Rightarrow> Inr (y # ys)))"

text \<open>\<^verbatim>\<open>cm[np.ix_(rows, cols)]\<close>.\<close>

definition submatrix :: "nat list list \<Rightarrow> nat list \<Rightarrow> nat list \<Rightarrow> error + nat list list" where
  "submatrix cm rows cols = map_err (\<lambda>i. map_err (\<lambda>j. cm_entry cm i j) cols) rows"

text \<open>
  \<^verbatim>\<open>Subsystem._test_connections(axis, nodes1, nodes2)\<close>: \<^verbatim>\<open>cm.sum(axis).all()\<close> on the
  submatrix of the network's adjacency matrix.
\<close>

definition test_connections :: "subsystem \<Rightarrow> nat \<Rightarrow> pyval list \<Rightarrow> pyval list \<Rightarrow> error + bool" where
  "test_connections sub axis nodes1 nodes2 =
     (if network_connectivity_matrix (subsystem_network sub) = None \<or> nodes1 = [] \<or> nodes2 = []
      then Inr True
      else
        (case map_err attr_index nodes1 of
           Inl e \<Rightarrow> Inl e
         | Inr rows \<Rightarrow>
             (case map_err attr_index nodes2 of
                Inl e \<Rightarrow> Inl e
              | Inr cols \<Rightarrow>
                  (case submatrix (the (network_connectivity_matrix (subsystem_network sub)))
                          rows cols of
                     Inl e \<Rightarrow> Inl e
                   | Inr cm \<Rightarrow>
                       if axis = 0
                       then Inr (list_all (\<lambda>j. sum_list (map (\<lambda>row. row ! j) cm) \<noteq> 0)
                                   [0..<length cols])
                       else if axis = 1 then Inr (list_all (\<lambda>row. sum_list row \<noteq> 0) cm)
                       else Inl ValueError))))"

definition any_connect_to_all :: "subsystem \<Rightarrow> pyval list \<Rightarrow> pyval list \<Rightarrow> error + bool" where
  "any_connect_to_all sub nodes1 nodes2 = test_connections sub 0 nodes1 nodes2"

definition all_connect_to_any :: "subsystem \<Rightarrow> pyval list \<Rightarrow> pyval list \<Rightarrow> error + bool" where
  "all_connect_to_any sub nodes1 nodes2 = test_connections sub 1 nodes1 nodes2"

section \<open>The search for the minimum information partition (subsystem.py)\<close>

text \<open>\<^verbatim>\<open>Subsystem._mip_bipartition\<close>; \<^verbatim>\<open>x[::-1]\<close> swaps the two parts of a bipartition.\<close>

definition mip_bipartition ::
  "env \<Rightarrow> node list \<Rightarrow> node list \<Rightarrow> (part \<times> part) list" where
  "mip_bipartition ev mechanism purview =
     (let purview_bipartitions = bipartition_nodes ev purview
      in concat (map (\<lambda>denominators.
           concat (map (\<lambda>numerators.
             if 0 < length (fst numerators) + length (fst denominators) \<and>
                0 < length (snd numerators) + length (snd denominators)
             then [(\<lparr>part_mechanism = fst numerators, part_purview = fst denominators\<rparr>,
                    \<lparr>part_mechanism = snd numerators, part_purview = snd denominators\<rparr>)]
             else [])
             (bipartition_nodes ev mechanism)))
           (purview_bipartitions @ map (\<lambda>x. (snd x, fst x)) purview_bipartitions)))"

text \<open>\<^verbatim>\<open>Subsystem._null_mip\<close>.\<close>

definition null_mip :: "direction \<Rightarrow> node list \<Rightarrow> node list \<Rightarrow> mip" where
  "null_mip d mechanism purview =
     \<lparr>mip_direction = d, mip_mechanism = mechanism, mip_purview = purview,
      mip_partition = None, mip_unpartitioned_repertoire = None,
      mip_partitioned_repertoire = None, mip_phi = 0\<rparr>"

text \<open>
  The distance between the unpartitioned repertoire and the product of the repertoires
  of the two parts of a candidate.
\<close>

definition partitioned_repertoire ::
  "(node list \<Rightarrow> node list \<Rightarrow> error + ndarray) \<Rightarrow> part \<times> part \<Rightarrow> error + ndarray" where
  "partitioned_repertoire repertoire candidate =
     (case repertoire (part_mechanism (fst candidate)) (part_purview (fst candidate)) of
        Inl e \<Rightarrow> Inl e
      | Inr part1rep \<Rightarrow>
          (case repertoire (part_mechanism (snd candidate)) (part_purview (snd candidate)) of
             Inl e \<Rightarrow> Inl e
           | Inr part2rep \<Rightarrow> multiply part1rep part2rep))"

text \<open>
  The loop of \<^verbatim>\<open>find_mip\<close> over the candidates. \<open>phi_min\<close> is \<open>None\<close> while it is
  \<^verbatim>\<open>float('inf')\<close>; the result \<open>None\<close> is the early \<^verbatim>\<open>return None\<close>.
\<close>

fun find_mip_loop ::
  "env \<Rightarrow> (node list \<Rightarrow> node list \<Rightarrow> error + ndarray) \<Rightarrow> direction \<Rightarrow> node list \<Rightarrow> node list
     \<Rightarrow> ndarray \<Rightarrow> (part \<times> part) list \<Rightarrow> real option \<Rightarrow> mip \<Rightarrow> error + mip option" where
  "find_mip_loop ev repertoire d mechanism purview unpartitioned [] phi_min best = Inr (Some best)"
| "find_mip_loop ev repertoire d mechanism purview unpartitioned (candidate # rest) phi_min best =
     (case partitioned_repertoire repertoire candidate of
        Inl e \<Rightarrow> Inl e
      | Inr partitioned \<Rightarrow>
          (let phi = hamming_emd ev unpartitioned partitioned
           in if phi < EPSILON ev then Inr None
              else if (case phi_min of None \<Rightarrow> True | Some m \<Rightarrow> EPSILON ev < m - phi)
              then find_mip_loop ev repertoire d mechanism purview unpartitioned rest (Some phi)
                     \<lparr>mip_direction = d, mip_mechanism = mechanism, mip_purview = purview,
                      mip_partition = Some candidate,
                      mip_unpartitioned_repertoire = Some unpartitioned,
                      mip_partitioned_repertoire = Some partitioned,
                      mip_phi = phi\<rparr>
              else find_mip_loop ev repertoire d mechanism purview unpartitioned rest
                     phi_min best))"

text \<open>\<^verbatim>\<open>Subsystem.find_mip(direction, mechanism, purview)\<close>.\<close>

definition find_mip ::
  "env \<Rightarrow> subsystem \<Rightarrow> direction \<Rightarrow> node list \<Rightarrow> node list \<Rightarrow> error + mip option" where
  "find_mip ev sub d mechanism purview =
     (case validate_direction d of
        Inl e \<Rightarrow> Inl e
      | Inr u \<Rightarrow>
          (case get_repertoire sub d of
             None \<Rightarrow> Inl TypeError
           | Some repertoire \<Rightarrow>
               (case repertoire mechanism purview of
                  Inl e \<Rightarrow> Inl e
                | Inr unpartitioned \<Rightarrow>
                    find_mip_loop ev repertoire d mechanism purview unpartitioned
                      (mip_bipartition ev mechanism purview) None
                      (null_mip d mechanism purview))))"

section \<open>The Mice cache and the search for the core cause and effect (compute.py)\<close>

text \<open>
  The module-level dictionary \<^verbatim>\<open>_mice_cache\<close> is threaded through every function that
  reads or writes it. Its keys are \<^verbatim>\<open>(hash(subsystem), direction, mechanism_indices)\<close>.
\<close>

type_synonym mice_cache = "int \<times> direction \<times> nat list \<Rightarrow> mice option"

definition get_mice_key :: "env \<Rightarrow> subsystem \<Rightarrow> direction \<Rightarrow> nat list \<Rightarrow> int \<times> direction \<times> nat list" where
  "get_mice_key ev sub d mechanism_indices =
     (subsystem_hash (hash_tuple ev) sub, d, mechanism_indices)"

definition cache_mice ::
  "env \<Rightarrow> mice_cache \<Rightarrow> subsystem \<Rightarrow> direction \<Rightarrow> nat list \<Rightarrow> mice \<Rightarrow> mice_cache" where
  "cache_mice ev cache sub d mechanism_indices m =
     (let key = get_mice_key ev sub d mechanism_indices
      in if cache key = None then cache(key \<mapsto> m) else cache)"

text \<open>\<^verbatim>\<open>_get_cached_mice\<close>; the result \<open>None\<close> is the \<^verbatim>\<open>return False\<close>.\<close>

definition get_cached_mice ::
  "env \<Rightarrow> mice_cache \<Rightarrow> subsystem \<Rightarrow> direction \<Rightarrow> nat list \<Rightarrow> mice option" where
  "get_cached_mice ev cache sub d mechanism_indices =
     (case cache (get_mice_key ev sub d mechanism_indices) of
        None \<Rightarrow> None
      | Some cached \<Rightarrow>
          if d = Past \<and>
             (list_all (\<lambda>i. i \<in> set (severed (subsystem_cut sub))) mechanism_indices \<or>
              list_all (\<lambda>i. i \<in> set (intact (subsystem_cut sub))) (mice_purview cached))
          then Some cached
          else if d = Future \<and>
             (list_all (\<lambda>i. i \<in> set (intact (subsystem_cut sub))) mechanism_indices \<or>
              list_all (\<lambda>i. i \<in> set (severed (subsystem_cut sub))) (mice_purview cached))
          then Some cached
          else None)"

text \<open>
  The filter \<^verbatim>\<open>not_trivially_reducible\<close> of \<^verbatim>\<open>find_mice\<close>. It hands the tuples of
  integer indices to the connectivity test.
\<close>

definition not_trivially_reducible ::
  "subsystem \<Rightarrow> direction \<Rightarrow> nat list \<Rightarrow> node list \<Rightarrow> error + bool" where
  "not_trivially_reducible sub d mechanism_indices purview =
     (let purview_indices = map node_index purview
      in if d = Past
         then all_connect_to_any sub (map PyInt purview_indices) (map PyInt mechanism_indices)
         else if d = Future
         then all_connect_to_any sub (map PyInt mechanism_indices) (map PyInt purview_indices)
         else Inr False)"

text \<open>
  \<^verbatim>\<open>max(subsystem.find_mip(direction, mechanism, purview) for purview in purviews)\<close> over
  the lazily filtered purviews: each purview is tested, then searched, then compared
  with the best so far. \<^verbatim>\<open>max\<close> of nothing raises \<^verbatim>\<open>ValueError\<close>.
\<close>

fun max_mip ::
  "env \<Rightarrow> (node list \<Rightarrow> error + bool) \<Rightarrow> (node list \<Rightarrow> error + mip option) \<Rightarrow> node list list
     \<Rightarrow> mip option option \<Rightarrow> error + mip option" where
  "max_mip ev keep search [] best = (case best of None \<Rightarrow> Inl ValueError | Some b \<Rightarrow> Inr b)"
| "max_mip ev keep search (purview # rest) best =
     (case keep purview of
        Inl e \<Rightarrow> Inl e
      | Inr kept \<Rightarrow>
          if kept
          then (case search purview of
                  Inl e \<Rightarrow> Inl e
                | Inr found \<Rightarrow>
                    (case best of
                       None \<Rightarrow> max_mip ev keep search rest (Some found)
                     | Some b \<Rightarrow>
                         (case mip_gt ev found b of
                            Inl e \<Rightarrow> Inl e
                          | Inr better \<Rightarrow>
                              max_mip ev keep search rest (Some (if better then found else b)))))
          else max_mip ev keep search rest best)"

text \<open>The part of \<^verbatim>\<open>find_mice\<close> after the cache lookup, up to the construction of the Mice.\<close>

definition compute_mice :: "env \<Rightarrow> subsystem \<Rightarrow> direction \<Rightarrow> nat list \<Rightarrow> error + mice" where
  "compute_mice ev sub d mechanism_indices =
     (case validate_direction d of
        Inl e \<Rightarrow> Inl e
      | Inr u \<Rightarrow>
          (case validate_nodelist
                  (filter (\<lambda>n. node_index n \<in> set mechanism_indices) (subsystem_nodes sub)) of
             Inl e \<Rightarrow> Inl e
           | Inr mechanism \<Rightarrow>
               (case max_mip ev (not_trivially_reducible sub d mechanism_indices)
                       (find_mip ev sub d mechanism) (powerset (subsystem_nodes sub)) None of
                  Inl e \<Rightarrow> Inl e
                | Inr None \<Rightarrow> Inl AttributeError
                | Inr (Some found) \<Rightarrow>
                    Inr \<lparr>mice_direction = mip_direction found,
                         mice_mechanism = mechanism_indices,
                         mice_purview = map node_index (mip_purview found),
                         mice_repertoire = mip_unpartitioned_repertoire found,
                         mice_mip = found,
                         mice_phi = mip_phi found\<rparr>)))"

text \<open>\<^verbatim>\<open>find_mice(subsystem, direction, mechanism_indices)\<close>, with the cache before and after.\<close>

definition find_mice ::
  "env \<Rightarrow> subsystem \<Rightarrow> direction \<Rightarrow> nat list \<Rightarrow> mice_cache \<Rightarrow> (error + mice) \<times> mice_cache" where
  "find_mice ev sub d mechanism_indices cache =
     (case get_cached_mice ev cache sub d mechanism_indices of
        Some cached \<Rightarrow> (Inr cached, cache)
      | None \<Rightarrow>
          (case compute_mice ev sub d mechanism_indices of
             Inl e \<Rightarrow> (Inl e, cache)
           | Inr m \<Rightarrow> (Inr m, cache_mice ev cache sub d mechanism_indices m)))"

definition core_cause ::
  "env \<Rightarrow> subsystem \<Rightarrow> nat list \<Rightarrow> mice_cache \<Rightarrow> (error + mice) \<times> mice_cache" where
  "core_cause ev sub mechanism_indices cache = find_mice ev sub Past mechanism_indices cache"

definition core_effect ::
  "env \<Rightarrow> subsystem \<Rightarrow> nat list \<Rightarrow> mice_cache \<Rightarrow> (error + mice) \<times> mice_cache" where
  "core_effect ev sub mechanism_indices cache = find_mice ev sub Future mechanism_indices cache"

section \<open>Concepts and constellations (compute.py)\<close>

text \<open>
  \<^verbatim>\<open>Subsystem._expand_repertoire\<close>. The purview it is given by \<^verbatim>\<open>_concept\<close> is the tuple of
  integer indices of a Mice, which is subtracted from the set of node objects.
\<close>

definition expand_repertoire ::
  "subsystem \<Rightarrow> direction \<Rightarrow> nat list \<Rightarrow> pyval list \<Rightarrow> ndarray option \<Rightarrow> error + ndarray" where
  "expand_repertoire sub d mechanism purview repertoire =
     (case validate_direction d of
        Inl e \<Rightarrow> Inl e
      | Inr u \<Rightarrow>
          (let non_purview_nodes =
                 filter (\<lambda>n. \<not> list_ex (py_eq (PyNode n)) purview) (subsystem_nodes sub)
           in case unconstrained_repertoire sub d non_purview_nodes of
                Inl e \<Rightarrow> Inl e
              | Inr unconstrained \<Rightarrow>
                  (case repertoire of
                     None \<Rightarrow> Inl TypeError
                   | Some r \<Rightarrow> multiply r unconstrained)))"

text \<open>
  The connectivity pre-screen of \<^verbatim>\<open>_concept\<close>: both tests get the tuples of integer
  indices; the second test runs only when the first returns true.
\<close>

definition concept_prescreen :: "subsystem \<Rightarrow> nat list \<Rightarrow> error + bool" where
  "concept_prescreen sub mechanism_indices =
     (case all_connect_to_any sub (map PyInt mechanism_indices)
             (map PyInt (subsystem_node_indices sub)) of
        Inl e \<Rightarrow> Inl e
      | Inr outputs_ok \<Rightarrow>
          if outputs_ok
          then any_connect_to_all sub (map PyInt (subsystem_node_indices sub))
                 (map PyInt mechanism_indices)
          else Inr False)"

text \<open>\<^verbatim>\<open>_concept(subsystem, mechanism_indices, hash)\<close>; the result \<open>None\<close> is \<^verbatim>\<open>return None\<close>.\<close>

definition concept_body ::
  "env \<Rightarrow> subsystem \<Rightarrow> nat list \<Rightarrow> mice_cache \<Rightarrow> (error + concept option) \<times> mice_cache" where
  "concept_body ev sub mechanism_indices cache =
     (case concept_prescreen sub mechanism_indices of
        Inl e \<Rightarrow> (Inl e, cache)
      | Inr passed \<Rightarrow>
          if passed
          then
            (case core_cause ev sub mechanism_indices cache of
               (Inl e, cache1) \<Rightarrow> (Inl e, cache1)
             | (Inr past_mice, cache1) \<Rightarrow>
                 (case core_effect ev sub mechanism_indices cache1 of
                    (Inl e, cache2) \<Rightarrow> (Inl e, cache2)
                  | (Inr future_mice, cache2) \<Rightarrow>
                      (let phi = min (mice_phi past_mice) (mice_phi future_mice)
                       in if phi < EPSILON ev then (Inr None, cache2)
                          else
                            (case expand_repertoire sub Past (mice_mechanism past_mice)
                                    (map PyInt (mice_purview past_mice))
                                    (mice_repertoire past_mice) of
                               Inl e \<Rightarrow> (Inl e, cache2)
                             | Inr cause_location \<Rightarrow>
                                 (case expand_repertoire sub Future (mice_mechanism future_mice)
                                         (map PyInt (mice_purview future_mice))
                                         (mice_repertoire future_mice) of
                                    Inl e \<Rightarrow> (Inl e, cache2)
                                  | Inr effect_location \<Rightarrow>
                                      (Inr (Some \<lparr>concept_mechanism = mechanism_indices,
                                                  concept_location = (cause_location, effect_location),
                                                  concept_phi = phi,
                                                  concept_cause = Some past_mice,
                                                  concept_effect = Some future_mice\<rparr>),
                                       cache2))))))
          else (Inr None, cache))"

text \<open>The wrapper \<^verbatim>\<open>concept(subsystem, mechanism_indices)\<close>, which first hashes a Mechanism.\<close>

definition concept_of ::
  "env \<Rightarrow> subsystem \<Rightarrow> nat list \<Rightarrow> mice_cache \<Rightarrow> (error + concept option) \<times> mice_cache" where
  "concept_of ev sub mechanism_indices cache =
     (case hash_mechanism ev
             (filter (\<lambda>n. node_index n \<in> set mechanism_indices) (subsystem_nodes sub)) of
        Inl e \<Rightarrow> (Inl e, cache)
      | Inr h \<Rightarrow> concept_body ev sub mechanism_indices cache)"

text \<open>A list comprehension whose body reads and writes the cache and may raise.\<close>

fun map_state ::
  "('a \<Rightarrow> 's \<Rightarrow> (error + 'b) \<times> 's) \<Rightarrow> 'a list \<Rightarrow> 's \<Rightarrow> (error + 'b list) \<times> 's" where
  "map_state f [] s = (Inr [], s)"
| "map_state f (x # xs) s =
     (case f x s of
        (Inl e, s1) \<Rightarrow> (Inl e, s1)
      | (Inr y, s1) \<Rightarrow>
          (case map_state f xs s1 of
             (Inl e, s2) \<Rightarrow> (Inl e, s2)
           | (Inr ys, s2) \<Rightarrow> (Inr (y # ys), s2)))"

text \<open>\<^verbatim>\<open>constellation(subsystem)\<close>; \<^verbatim>\<open>filter(None, concepts)\<close> drops the non-concepts.\<close>

definition constellation ::
  "env \<Rightarrow> subsystem \<Rightarrow> mice_cache \<Rightarrow> (error + concept list) \<times> mice_cache" where
  "constellation ev sub cache =
     (case map_state (concept_of ev sub) (powerset (subsystem_node_indices sub)) cache of
        (Inl e, cache1) \<Rightarrow> (Inl e, cache1)
      | (Inr concepts, cache1) \<Rightarrow> (Inr (concat (map (\<lambda>c. case c of None \<Rightarrow> [] | Some x \<Rightarrow> [x]) concepts)), cache1))"

section \<open>Distances between concepts and constellations (compute.py)\<close>

definition concept_distance :: "env \<Rightarrow> concept \<Rightarrow> concept \<Rightarrow> real" where
  "concept_distance ev c1 c2 =
     sum_list [hamming_emd ev (fst (concept_location c1)) (fst (concept_location c2)),
               hamming_emd ev (snd (concept_location c1)) (snd (concept_location c2))]"

definition constellation_distance_simple :: "env \<Rightarrow> concept list \<Rightarrow> concept list \<Rightarrow> concept \<Rightarrow> real" where
  "constellation_distance_simple ev C1 C2 null_concept =
     (let bigger = (if length C1 < length C2 then C2 else C1);
          smaller = (if length C1 < length C2 then C1 else C2);
          destroyed = filter (\<lambda>c. c \<notin> set smaller) bigger
      in sum_list (map (\<lambda>c. concept_phi c * concept_distance ev c null_concept) destroyed))"

text \<open>
  The two phi distributions of \<^verbatim>\<open>_constellation_distance_emd\<close> after the residual has
  been assigned; \<^verbatim>\<open>d[-1] = residual\<close> overwrites the last entry.
\<close>

definition phi_distributions ::
  "concept list \<Rightarrow> concept list \<Rightarrow> concept list \<Rightarrow> concept list \<Rightarrow> concept
     \<Rightarrow> real list \<times> real list" where
  "phi_distributions C1 C2 unique_C1 unique_C2 null_concept =
     (let shared_concepts = filter (\<lambda>c. c \<in> set C2) C1;
          all_concepts = shared_concepts @ unique_C1 @ unique_C2 @ [null_concept];
          d1 = map (\<lambda>c. if c \<in> set C1 then concept_phi c else 0) all_concepts;
          d2 = map (\<lambda>c. if c \<in> set C2 then concept_phi c else 0) all_concepts;
          residual = sum_list d1 - sum_list d2;
          d2' = (if 0 < residual then d2[length d2 - 1 := residual] else d2);
          d1' = (if residual < 0 then d1[length d1 - 1 := residual] else d1)
      in (d1', d2'))"

definition constellation_distance_emd ::
  "env \<Rightarrow> concept list \<Rightarrow> concept list \<Rightarrow> concept list \<Rightarrow> concept list \<Rightarrow> concept \<Rightarrow> real" where
  "constellation_distance_emd ev C1 C2 unique_C1 unique_C2 null_concept =
     (let shared_concepts = filter (\<lambda>c. c \<in> set C2) C1;
          all_concepts = shared_concepts @ unique_C1 @ unique_C2 @ [null_concept];
          distance_matrix =
            map (\<lambda>j. map (\<lambda>i. concept_distance ev i j) all_concepts) all_concepts
      in case phi_distributions C1 C2 unique_C1 unique_C2 null_concept of
           (d1, d2) \<Rightarrow> emd ev d1 d2 distance_matrix)"

definition constellation_distance :: "env \<Rightarrow> concept list \<Rightarrow> concept list \<Rightarrow> concept \<Rightarrow> real" where
  "constellation_distance ev C1 C2 null_concept =
     (let concepts_only_in_C1 = filter (\<lambda>c. c \<notin> set C2) C1;
          concepts_only_in_C2 = filter (\<lambda>c. c \<notin> set C1) C2
      in if concepts_only_in_C1 = [] \<or> concepts_only_in_C2 = []
         then constellation_distance_simple ev C1 C2 null_concept
         else constellation_distance_emd ev C1 C2 concepts_only_in_C1 concepts_only_in_C2
                null_concept)"

text \<open>
  The solver \<^verbatim>\<open>utils.emd\<close> is the field \<open>emd\<close> of the environment. The library
  behind it (\<^verbatim>\<open>pyemd\<close>) computes the minimum cost of moving the smaller total mass and,
  by its documentation, charges the difference of the two total masses at the largest
  entry of the ground-distance matrix.
\<close>

definition extra_mass_penalty :: "real list \<Rightarrow> real list \<Rightarrow> real list list \<Rightarrow> real" where
  "extra_mass_penalty d1 d2 distance_matrix =
     \<bar>sum_list d1 - sum_list d2\<bar> * foldr max (concat distance_matrix) 0"

section \<open>The search over cuts (compute.py)\<close>

text \<open>\<^verbatim>\<open>Subsystem.null_concept\<close>.\<close>

definition null_concept :: "subsystem \<Rightarrow> error + concept" where
  "null_concept sub =
     (case cause_repertoire sub [] (subsystem_nodes sub) of
        Inl e \<Rightarrow> Inl e
      | Inr unconstrained_cause \<Rightarrow>
          (case effect_repertoire sub [] (subsystem_nodes sub) of
             Inl e \<Rightarrow> Inl e
           | Inr unconstrained_effect \<Rightarrow>
               Inr \<lparr>concept_mechanism = [],
                    concept_location = (unconstrained_cause, unconstrained_effect),
                    concept_phi = 0, concept_cause = None, concept_effect = None\<rparr>))"

text \<open>\<^verbatim>\<open>_null_mip\<close> and \<^verbatim>\<open>_single_node_mip\<close> of compute.py.\<close>

definition null_bigmip :: "subsystem \<Rightarrow> bigmip" where
  "null_bigmip sub =
     \<lparr>bigmip_subsystem = sub, bigmip_phi = 0, bigmip_cut = subsystem_null_cut sub,
      bigmip_unpartitioned_constellation = Some [],
      bigmip_partitioned_constellation = Some []\<rparr>"

definition single_node_mip :: "env \<Rightarrow> subsystem \<Rightarrow> bigmip" where
  "single_node_mip ev sub =
     (if SINGLE_NODES_WITH_SELFLOOPS_HAVE_PHI ev
      then \<lparr>bigmip_subsystem = sub, bigmip_phi = 0.5,
            bigmip_cut = \<lparr>severed = subsystem_node_indices sub,
                          intact = subsystem_node_indices sub\<rparr>,
            bigmip_unpartitioned_constellation = None,
            bigmip_partitioned_constellation = None\<rparr>
      else null_bigmip sub)"

text \<open>
  One direction of \<^verbatim>\<open>_evaluate_cut\<close>: the subsystem with the cut, its constellation, and
  the BigMip whose phi is the distance to the unpartitioned constellation.
\<close>

definition evaluate_direction ::
  "env \<Rightarrow> subsystem \<Rightarrow> cut \<Rightarrow> concept list \<Rightarrow> mice_cache \<Rightarrow> (error + bigmip) \<times> mice_cache" where
  "evaluate_direction ev sub c unpartitioned_constellation cache =
     (case Subsystem_init (subsystem_node_indices sub) (subsystem_current_state sub)
             (subsystem_past_state sub) (subsystem_network sub) (Some c) of
        Inl e \<Rightarrow> (Inl e, cache)
      | Inr cut_subsystem \<Rightarrow>
          (case constellation ev cut_subsystem cache of
             (Inl e, cache1) \<Rightarrow> (Inl e, cache1)
           | (Inr cut_constellation, cache1) \<Rightarrow>
               (case null_concept sub of
                  Inl e \<Rightarrow> (Inl e, cache1)
                | Inr null \<Rightarrow>
                    (Inr \<lparr>bigmip_subsystem = sub,
                          bigmip_phi = constellation_distance ev unpartitioned_constellation
                                         cut_constellation null,
                          bigmip_cut = c,
                          bigmip_unpartitioned_constellation = Some unpartitioned_constellation,
                          bigmip_partitioned_constellation = Some cut_constellation\<rparr>,
                     cache1))))"

text \<open>\<^verbatim>\<open>_evaluate_cut\<close>; \<^verbatim>\<open>min(forward_mip, backward_mip)\<close> is the second one only when it
  is less than the first.\<close>

definition evaluate_cut ::
  "env \<Rightarrow> subsystem \<Rightarrow> concept list \<Rightarrow> nat list \<times> nat list \<Rightarrow> mice_cache
     \<Rightarrow> (error + bigmip) \<times> mice_cache" where
  "evaluate_cut ev sub unpartitioned_constellation bipart cache =
     (case evaluate_direction ev sub \<lparr>severed = fst bipart, intact = snd bipart\<rparr>
             unpartitioned_constellation cache of
        (Inl e, cache1) \<Rightarrow> (Inl e, cache1)
      | (Inr forward_mip, cache1) \<Rightarrow>
          (case evaluate_direction ev sub \<lparr>severed = snd bipart, intact = fst bipart\<rparr>
                  unpartitioned_constellation cache1 of
             (Inl e, cache2) \<Rightarrow> (Inl e, cache2)
           | (Inr backward_mip, cache2) \<Rightarrow>
               (case bigmip_lt ev backward_mip forward_mip of
                  Inl e \<Rightarrow> (Inl e, cache2)
                | Inr smaller \<Rightarrow> (Inr (if smaller then backward_mip else forward_mip), cache2))))"

text \<open>\<^verbatim>\<open>min\<close> of a list of BigMips: the first of the least; of nothing, \<^verbatim>\<open>ValueError\<close>.\<close>

fun min_from :: "env \<Rightarrow> bigmip \<Rightarrow> bigmip list \<Rightarrow> error + bigmip" where
  "min_from ev best [] = Inr best"
| "min_from ev best (x # xs) =
     (case bigmip_lt ev x best of
        Inl e \<Rightarrow> Inl e
      | Inr smaller \<Rightarrow> min_from ev (if smaller then x else best) xs)"

definition min_bigmip :: "env \<Rightarrow> bigmip list \<Rightarrow> error + bigmip" where
  "min_bigmip ev xs = (case xs of [] \<Rightarrow> Inl ValueError | x # rest \<Rightarrow> min_from ev x rest)"

text \<open>
  \<^verbatim>\<open>scipy.sparse.csgraph.connected_components(csr_matrix(cm))\<close>, a library function: called
  with its defaults (\<^verbatim>\<open>directed=True, connection='weak'\<close>) it counts the weakly
  connected components, those of the graph with every edge taken in both directions.
  \<open>reachable cm k seen\<close> are the nodes reached from \<open>seen\<close> in at most \<open>k\<close> steps; a
  component is counted at its least node.
\<close>

definition linked :: "nat list list \<Rightarrow> nat \<Rightarrow> nat \<Rightarrow> bool" where
  "linked cm i j = (cm ! i ! j \<noteq> 0 \<or> cm ! j ! i \<noteq> 0)"

fun reachable :: "nat list list \<Rightarrow> nat \<Rightarrow> nat list \<Rightarrow> nat list" where
  "reachable cm 0 seen = seen"
| "reachable cm (Suc k) seen =
     reachable cm k
       (remdups (seen @ filter (\<lambda>j. list_ex (\<lambda>i. linked cm i j) seen) [0..<length cm]))"

definition connected_components :: "nat list list \<Rightarrow> nat" where
  "connected_components cm =
     length (filter (\<lambda>v. list_all (\<lambda>u. v \<notin> set (reachable cm (length cm) [u])) [0..<v])
               [0..<length cm])"

text \<open>
  The count that the comment above the call names (\<^verbatim>\<open>Get the number of strongly
  connected components\<close>): two nodes are in one strongly connected component when each
  reaches the other along the direction of the edges. \<open>reachable_along cm k seen\<close> are
  the nodes reached from \<open>seen\<close> in at most \<open>k\<close> steps along the edges; a component
  is counted at its least node.
\<close>

fun reachable_along :: "nat list list \<Rightarrow> nat \<Rightarrow> nat list \<Rightarrow> nat list" where
  "reachable_along cm 0 seen = seen"
| "reachable_along cm (Suc k) seen =
     reachable_along cm k
       (remdups (seen @ filter (\<lambda>j. list_ex (\<lambda>i. cm ! i ! j \<noteq> 0) seen) [0..<length cm]))"

definition strongly_connected_components :: "nat list list \<Rightarrow> nat" where
  "strongly_connected_components cm =
     length (filter (\<lambda>v. list_all (\<lambda>u. \<not> (v \<in> set (reachable_along cm (length cm) [u]) \<and>
                                          u \<in> set (reachable_along cm (length cm) [v])))
                             [0..<v])
               [0..<length cm])"

text \<open>
  The check of \<^verbatim>\<open>_big_mip\<close> on the adjacency matrix: whether the submatrix of the
  subsystem's nodes has more than one component. It is made only when the subsystem
  has a matrix, and reads the network's.
\<close>

definition disconnected :: "subsystem \<Rightarrow> error + bool" where
  "disconnected sub =
     (if subsystem_connectivity_matrix sub = None then Inr False
      else
        (case network_connectivity_matrix (subsystem_network sub) of
           None \<Rightarrow> Inl TypeError
         | Some ncm \<Rightarrow>
             (case submatrix ncm (subsystem_node_indices sub) (subsystem_node_indices sub) of
                Inl e \<Rightarrow> Inl e
              | Inr cm \<Rightarrow> Inr (1 < connected_components cm))))"

text \<open>\<^verbatim>\<open>_big_mip(subsystem, cache_key)\<close>, with the cut evaluations run one after the other.\<close>

definition big_mip :: "env \<Rightarrow> subsystem \<Rightarrow> mice_cache \<Rightarrow> (error + bigmip) \<times> mice_cache" where
  "big_mip ev sub cache =
     (if length (subsystem_node_indices sub) = 1 then (Inr (single_node_mip ev sub), cache)
      else if subsystem_node_indices sub = [] then (Inr (null_bigmip sub), cache)
      else
        (case disconnected sub of
           Inl e \<Rightarrow> (Inl e, cache)
         | Inr split \<Rightarrow>
             if split then (Inr (null_bigmip sub), cache)
             else
               (let bipartitions = drop 1 (bipartition_indices ev (subsystem_node_indices sub))
                in if bipartitions = [] then (Inr (null_bigmip sub), cache)
                   else
                     (case constellation ev sub cache of
                        (Inl e, cache1) \<Rightarrow> (Inl e, cache1)
                      | (Inr unpartitioned_constellation, cache1) \<Rightarrow>
                          (case map_state (evaluate_cut ev sub unpartitioned_constellation)
                                  bipartitions cache1 of
                             (Inl e, cache2) \<Rightarrow> (Inl e, cache2)
                           | (Inr mip_candidates, cache2) \<Rightarrow>
                               (min_bigmip ev mip_candidates, cache2))))))"

definition big_phi :: "env \<Rightarrow> subsystem \<Rightarrow> mice_cache \<Rightarrow> (error + real) \<times> mice_cache" where
  "big_phi ev sub cache =
     (case big_mip ev sub cache of
        (Inl e, cache1) \<Rightarrow> (Inl e, cache1)
      | (Inr m, cache1) \<Rightarrow> (Inr (bigmip_phi m), cache1))"

section \<open>Predicates used in the statements\<close>

text \<open>The nodes \<open>nds\<close> are nodes of the network \<open>net\<close> with the indices \<open>xs\<close>, in order.\<close>

definition built_for :: "network \<Rightarrow> nat list \<Rightarrow> node list \<Rightarrow> bool" where
  "built_for net xs nds = list_all2 (\<lambda>i nd. node_index nd = i \<and> node_network nd = net) xs nds"

text \<open>
  The condition of the spec under which a cached Mice may be reused under a cut: in the
  cause direction every mechanism element is severed or every element of the cached
  purview is intact; in the effect direction every mechanism element is intact or
  every element of the cached purview is severed.
\<close>

definition reuse_allowed :: "direction \<Rightarrow> cut \<Rightarrow> nat list \<Rightarrow> nat list \<Rightarrow> bool" where
  "reuse_allowed d c mechanism purview =
     (case d of
        Past \<Rightarrow> set mechanism \<subseteq> set (severed c) \<or> set purview \<subseteq> set (intact c)
      | Future \<Rightarrow> set mechanism \<subseteq> set (intact c) \<or> set purview \<subseteq> set (severed c)
      | Unknown_direction \<Rightarrow> False)"


section \<open>Invariants of the arrays of the repertoires\<close>

text \<open>
  An index tuple lies within a shape; an array has as many entries as its shape says;
  an array has no negative entry.
\<close>

definition in_bounds :: "nat list \<Rightarrow> nat list \<Rightarrow> bool" where
  "in_bounds s idx = list_all2 (\<lambda>i n. i < n) idx s"

definition well_shaped :: "ndarray \<Rightarrow> bool" where
  "well_shaped a = (length (data a) = prod_list (shape a))"

definition nonneg :: "ndarray \<Rightarrow> bool" where
  "nonneg a = list_all (\<lambda>v. 0 \<le> v) (data a)"

text \<open>
  The index at which broadcasting reads an array of the shape \<open>s\<close>, for an index of
  the broadcast result: 0 on every axis of length 1.
\<close>

definition clip :: "nat list \<Rightarrow> nat list \<Rightarrow> nat list" where
  "clip s idx = map2 (\<lambda>n i. if n = 1 then 0 else i) s idx"

text \<open>
  A network whose transition tensor has an axis of length 2 for every element and a
  last axis for the target element, with probabilities as entries.
\<close>

definition well_formed_network :: "network \<Rightarrow> bool" where
  "well_formed_network net =
     (shape (network_tpm net) = replicate (network_size net) 2 @ [network_size net] \<and>
      well_shaped (network_tpm net) \<and>
      list_all (\<lambda>v. 0 \<le> v \<and> v \<le> 1) (data (network_tpm net)))"

text \<open>
  A node that \<^verbatim>\<open>Node.__init__\<close> builds for the network, with the node's own index, matrix
  and label.
\<close>

definition constructed :: "network \<Rightarrow> node \<Rightarrow> bool" where
  "constructed net nd =
     (Node_init net (node_index nd) (node_connectivity_matrix nd) (node_label nd) = Inr nd)"

text \<open>
  The on and off tables in the loop of \<^verbatim>\<open>Node.__init__\<close>: at every index their
  entries are probabilities that add up to 1. The same for the table of a node, whose
  first axis is the state of the node.
\<close>

definition tables :: "nat \<Rightarrow> ndarray \<Rightarrow> ndarray \<Rightarrow> bool" where
  "tables n on off =
     (well_shaped on \<and> well_shaped off \<and> shape off = shape on \<and> length (shape on) = n \<and>
      (\<forall>k<n. 0 < shape on ! k) \<and>
      (\<forall>x. in_bounds (shape on) x \<longrightarrow>
           item on x + item off x = 1 \<and> 0 \<le> item on x \<and> 0 \<le> item off x))"

definition stochastic_table :: "nat \<Rightarrow> ndarray \<Rightarrow> bool" where
  "stochastic_table n t =
     (well_shaped t \<and> length (shape t) = Suc n \<and> hd (shape t) = 2 \<and>
      (\<forall>k<n. 0 < tl (shape t) ! k) \<and>
      (\<forall>x. in_bounds (tl (shape t)) x \<longrightarrow>
           item t (0 # x) + item t (1 # x) = 1 \<and> 0 \<le> item t (0 # x) \<and> 0 \<le> item t (1 # x)))"

text \<open>An array with \<open>n\<close> axes, none of length 0, and no negative entry.\<close>

definition nonneg_array :: "nat \<Rightarrow> ndarray \<Rightarrow> bool" where
  "nonneg_array n a =
     (well_shaped a \<and> length (shape a) = n \<and> (\<forall>k<n. 0 < shape a ! k) \<and>
      (\<forall>x. in_bounds (shape a) x \<longrightarrow> 0 \<le> item a x))"

text \<open>
  In \<^verbatim>\<open>effect_repertoire\<close> the arrays have \<open>n\<close> axes for the past state of the network
  followed by \<open>n\<close> axes for the states of the purview. The second half of the table of
  the purview node \<open>A\<close> has the shape \<open>unit_shape n A\<close>, with the state \<open>j\<close> of that
  node at the index \<open>unit_index n A j\<close>; for every past state the two entries add up
  to 1.
\<close>

definition unit_shape :: "nat \<Rightarrow> nat \<Rightarrow> nat list" where
  "unit_shape n A = (replicate n 1)[A := 2]"

definition unit_index :: "nat \<Rightarrow> nat \<Rightarrow> nat \<Rightarrow> nat list" where
  "unit_index n A j = (replicate n 0)[A := j]"

definition row_stochastic :: "nat \<Rightarrow> nat \<Rightarrow> ndarray \<Rightarrow> bool" where
  "row_stochastic n A T =
     (well_shaped T \<and> length (shape T) = n + n \<and> drop n (shape T) = unit_shape n A \<and>
      (\<forall>k<n. 0 < shape T ! k) \<and>
      (\<forall>x. in_bounds (take n (shape T)) x \<longrightarrow>
           item T (x @ unit_index n A 0) + item T (x @ unit_index n A 1) = 1))"

text \<open>
  The shape with an axis of length 2 for the nodes in \<open>Q\<close>. The invariant of the loop of
  \<^verbatim>\<open>effect_repertoire\<close> over the purview \<open>P\<close>, when the nodes in \<open>Q\<close> are done: the
  accumulated array does not depend on the axes of the nodes still to come, and for
  every past state its entries over the states of the nodes done add up to 1. After the
  loop, while the past state is conditioned on: for every past state the entries add up
  to 1.
\<close>

definition axes_shape :: "nat \<Rightarrow> nat set \<Rightarrow> nat list" where
  "axes_shape n Q = map (\<lambda>k. if k \<in> Q then 2 else 1) [0..<n]"

definition acc_inv :: "nat \<Rightarrow> nat set \<Rightarrow> nat set \<Rightarrow> ndarray \<Rightarrow> bool" where
  "acc_inv n P Q acc =
     (well_shaped acc \<and> length (shape acc) = n + n \<and> drop n (shape acc) = axes_shape n P \<and>
      (\<forall>k<n. 0 < shape acc ! k) \<and> Q \<subseteq> P \<and>
      (\<forall>x y k j. in_bounds (take n (shape acc)) x \<and> in_bounds (axes_shape n P) y \<and>
                  k \<in> P \<and> k \<notin> Q \<and> k < n \<and> j < 2
                  \<longrightarrow> item acc (x @ y[k := j]) = item acc (x @ y)) \<and>
      (\<forall>x. in_bounds (take n (shape acc)) x \<longrightarrow>
           sum_list (map (\<lambda>y. item acc (x @ y)) (indices (axes_shape n Q))) = 1))"

definition fin_inv :: "nat \<Rightarrow> nat list \<Rightarrow> ndarray \<Rightarrow> bool" where
  "fin_inv n S a =
     (well_shaped a \<and> length (shape a) = n + n \<and> drop n (shape a) = S \<and>
      (\<forall>x. in_bounds (take n (shape a)) x \<longrightarrow>
           sum_list (map (\<lambda>y. item a (x @ y)) (indices S)) = 1))"
section \<open>Example inputs\<close>

text \<open>
  A network of two elements, each copying the other, with every edge present in the
  adjacency matrix, and the cut that severs the edges from element 0 to element 1.
\<close>

definition copy_network :: network where
  "copy_network =
     \<lparr>network_size = 2,
      network_tpm = \<lparr>shape = [2, 2, 2], data = [0, 0, 1, 0, 0, 1, 1, 1]\<rparr>,
      network_connectivity_matrix = Some [[1, 1], [1, 1]]\<rparr>"

definition cut_0_1 :: cut where
  "cut_0_1 = \<lparr>severed = [0], intact = [1]\<rparr>"


text \<open>Two hash functions, standing for Python's \<^verbatim>\<open>hash\<close> in the examples.\<close>

definition tuple_hash :: "nat list \<times> nat list \<times> nat list \<times> network \<Rightarrow> int" where
  "tuple_hash t =
     (case t of (ni, cs, ps, net) \<Rightarrow>
        int (sum_list ni) + 3 * int (sum_list cs) + 7 * int (sum_list ps) +
        11 * int (network_size net))"

definition pair_hash :: "network \<times> nat \<Rightarrow> int" where
  "pair_hash t = (case t of (net, i) \<Rightarrow> int (network_size net) + 5 * int i)"

text \<open>
  Three concepts with different mechanisms: two with phi 1 and 2, and a null concept
  with phi 0.
\<close>

definition concept_a :: concept where
  "concept_a =
     \<lparr>concept_mechanism = [0], concept_location = (np_array_1, np_array_1), concept_phi = 1,
      concept_cause = None, concept_effect = None\<rparr>"

definition concept_b :: concept where
  "concept_b =
     \<lparr>concept_mechanism = [1], concept_location = (np_array_1, np_array_1), concept_phi = 2,
      concept_cause = None, concept_effect = None\<rparr>"

definition concept_null :: concept where
  "concept_null =
     \<lparr>concept_mechanism = [], concept_location = (np_array_1, np_array_1), concept_phi = 0,
      concept_cause = None, concept_effect = None\<rparr>"

text \<open>
  A network of two elements with the single edge from element 0 to element 1: element
  1 copies element 0, and element 0 is always off.
\<close>

definition chain_network :: network where
  "chain_network =
     \<lparr>network_size = 2,
      network_tpm = \<lparr>shape = [2, 2, 2], data = [0, 0, 0, 0, 0, 1, 0, 1]\<rparr>,
      network_connectivity_matrix = Some [[0, 1], [0, 0]]\<rparr>"

text \<open>
  An environment for the examples. The distance between two repertoires is half the
  sum of the absolute differences of their entries, which over the states of one node
  is the earth mover's distance with the Hamming ground cost. Mips and BigMips are
  ordered by phi, and a missing Mip cannot be compared. The solver of the generalised
  earth mover's distance is not reached in the examples that use this environment.
\<close>

definition half_l1 :: "ndarray \<Rightarrow> ndarray \<Rightarrow> real" where
  "half_l1 a b = sum_list (map2 (\<lambda>x y. \<bar>x - y\<bar>) (data a) (data b)) / 2"

definition phi_gt :: "mip option \<Rightarrow> mip option \<Rightarrow> error + bool" where
  "phi_gt a b =
     (case (a, b) of
        (Some x, Some y) \<Rightarrow> Inr (mip_phi y < mip_phi x)
      | _ \<Rightarrow> Inl TypeError)"

definition example_env :: env where
  "example_env =
     \<lparr>EPSILON = 1 / 1000000,
      SINGLE_NODES_WITH_SELFLOOPS_HAVE_PHI = True,
      hamming_emd = half_l1,
      emd = (\<lambda>d1 d2 distance_matrix. 0),
      bipartition_nodes = bipartition,
      bipartition_indices = bipartition,
      mip_gt = phi_gt,
      bigmip_lt = (\<lambda>a b. Inr (bigmip_phi a < bigmip_phi b)),
      hash_tuple = tuple_hash,
      hash_mechanism = (\<lambda>nodes. Inr (int (sum_list (map node_index nodes))))\<rparr>"

text \<open>
  Three concepts over the two states of one element, at different locations: one at
  the state 0 with phi 1, one at the state 1 with phi 2, and a null concept with phi 0
  at the uniform distribution. By \<open>half_l1\<close> the first two are at distance 2 from each
  other and each at distance 1 from the null concept.
\<close>

definition concept_low :: concept where
  "concept_low =
     \<lparr>concept_mechanism = [0],
      concept_location = (\<lparr>shape = [2], data = [1, 0]\<rparr>, \<lparr>shape = [2], data = [1, 0]\<rparr>),
      concept_phi = 1, concept_cause = None, concept_effect = None\<rparr>"

definition concept_high :: concept where
  "concept_high =
     \<lparr>concept_mechanism = [1],
      concept_location = (\<lparr>shape = [2], data = [0, 1]\<rparr>, \<lparr>shape = [2], data = [0, 1]\<rparr>),
      concept_phi = 2, concept_cause = None, concept_effect = None\<rparr>"

definition concept_centre :: concept where
  "concept_centre =
     \<lparr>concept_mechanism = [],
      concept_location = (\<lparr>shape = [2], data = [1 / 2, 1 / 2]\<rparr>,
                          \<lparr>shape = [2], data = [1 / 2, 1 / 2]\<rparr>),
      concept_phi = 0, concept_cause = None, concept_effect = None\<rparr>"

text \<open>
  The environment of the examples with a given solver, and one solver: it charges the
  difference of the total masses as above and adds the cost of the plan that sends the
  mass of every source to the sinks in proportion to their masses, which is the only
  plan when the first vector has its mass at one index.
\<close>

definition solver_env :: "(real list \<Rightarrow> real list \<Rightarrow> real list list \<Rightarrow> real) \<Rightarrow> env" where
  "solver_env solver = example_env\<lparr>emd := solver\<rparr>"

definition proportional_plan_cost :: "real list \<Rightarrow> real list \<Rightarrow> real list list \<Rightarrow> real" where
  "proportional_plan_cost d1 d2 distance_matrix =
     (if sum_list d1 = 0 then 0
      else sum_list (map (\<lambda>i. sum_list (map (\<lambda>j. \<bar>d1 ! i\<bar> * \<bar>d2 ! j\<bar> * \<bar>distance_matrix ! j ! i\<bar>)
                                             [0..<length d2]))
                       [0..<length d1]) / \<bar>sum_list d1\<bar>)"

definition proportional_solver :: "real list \<Rightarrow> real list \<Rightarrow> real list list \<Rightarrow> real" where
  "proportional_solver d1 d2 distance_matrix =
     extra_mass_penalty d1 d2 distance_matrix + proportional_plan_cost d1 d2 distance_matrix"

text \<open>The subsystems of both elements of the two example networks, without a cut.\<close>

definition copy_subsystem :: subsystem where
  "copy_subsystem = projr (Subsystem_init [0, 1] [1, 0] [0, 1] copy_network None)"

definition chain_subsystem :: subsystem where
  "chain_subsystem = projr (Subsystem_init [0, 1] [0, 0] [0, 0] chain_network None)"

text \<open>The cache before anything is stored.\<close>

definition empty_cache :: mice_cache where
  "empty_cache = (\<lambda>key. None)"

text \<open>
  A network of two elements without an adjacency matrix, in which each element keeps
  its state; the subsystem of element 0 alone, without a cut and under the cut that
  \<^verbatim>\<open>_single_node_mip\<close> uses for a single node.
\<close>

definition memory_network :: network where
  "memory_network =
     \<lparr>network_size = 2,
      network_tpm = \<lparr>shape = [2, 2, 2], data = [0, 0, 0, 1, 1, 0, 1, 1]\<rparr>,
      network_connectivity_matrix = None\<rparr>"

definition memory_subsystem :: subsystem where
  "memory_subsystem = projr (Subsystem_init [0] [1, 0] [1, 0] memory_network None)"

definition memory_cut_subsystem :: subsystem where
  "memory_cut_subsystem =
     projr (Subsystem_init [0] [1, 0] [1, 0] memory_network (Some \<lparr>severed = [0], intact = [0]\<rparr>))"

text \<open>
  The core cause of element 0 in the subsystem without a cut, searched with nothing
  cached, and the cache after that search.
\<close>

definition memory_core_cause :: mice where
  "memory_core_cause = projr (fst (find_mice example_env memory_subsystem Past [0] empty_cache))"

definition memory_cache :: mice_cache where
  "memory_cache = snd (find_mice example_env memory_subsystem Past [0] empty_cache)"






text \<open>
  The subsystem of both elements of the network with the single edge, in a current
  state in which element 0 is on, which the network never reaches.
\<close>

definition chain_on_subsystem :: subsystem where
  "chain_on_subsystem = projr (Subsystem_init [0, 1] [1, 0] [0, 0] chain_network None)"
section \<open>Properties of nodes and subsystems\<close>

lemma node_eq_refl: "node_eq a a"
  by (simp add: node_eq_def)


lemma Node_init_identity:
  assumes "Node_init net i cm l = Inr nd"
  shows "node_index nd = i \<and> node_network nd = net"
  using assms
  by (auto simp: Node_init_def Let_def split: option.splits sum.splits if_splits prod.splits)

lemma build_nodes_all2:
  "build_nodes f xs = Inr nds \<Longrightarrow> list_all2 (\<lambda>i nd. f i = Inr nd) xs nds"
  by (induction xs arbitrary: nds) (auto split: sum.splits)

lemma build_nodes_built_for:
  assumes "build_nodes (\<lambda>i. Node_init net i cm l) xs = Inr nds"
  shows "built_for net xs nds"
  unfolding built_for_def
  using build_nodes_all2[OF assms]
  by (rule list_all2_mono) (simp add: Node_init_identity)

lemma network_nodes_built_for:
  assumes "network_nodes net = Inr nds"
  shows "built_for net [0..<network_size net] nds"
  using assms unfolding network_nodes_def by (rule build_nodes_built_for)

lemma network_nodes_nth:
  assumes "network_nodes net = Inr nds" and "i < length nds"
  shows "node_index (nds ! i) = i \<and> node_network (nds ! i) = net"
proof -
  have b: "list_all2 (\<lambda>i nd. node_index nd = i \<and> node_network nd = net) [0..<network_size net] nds"
    using network_nodes_built_for[OF assms(1)] by (simp add: built_for_def)
  have len: "length nds = network_size net"
    using b by (auto dest: list_all2_lengthD)
  from list_all2_nthD2[OF b assms(2)] assms(2) len show ?thesis by simp
qed

lemma Subsystem_init_built_for:
  assumes "Subsystem_init node_indices cs ps net c = Inr s"
  shows "built_for net (sort (remdups node_indices)) (subsystem_nodes s)"
proof (cases c)
  case None
  with assms obtain nds where nds: "network_nodes net = Inr nds"
    and ok: "list_all (\<lambda>i. i < length nds) (sort (remdups node_indices))"
    and s: "subsystem_nodes s = map (\<lambda>i. nds ! i) (sort (remdups node_indices))"
    by (auto simp: Subsystem_init_def Let_def split: sum.splits if_splits)
  show ?thesis
    unfolding built_for_def s list_all2_map2
  proof (intro list_all2_all_nthI)
    fix n assume "n < length (sort (remdups node_indices))"
    then have "sort (remdups node_indices) ! n \<in> set (sort (remdups node_indices))"
      by (rule nth_mem)
    then have "sort (remdups node_indices) ! n < length nds"
      using ok by (simp add: list_all_iff)
    then show "node_index (nds ! (sort (remdups node_indices) ! n)) = sort (remdups node_indices) ! n \<and>
               node_network (nds ! (sort (remdups node_indices) ! n)) = net"
      by (rule network_nodes_nth[OF nds])
  qed simp
next
  case (Some c')
  with assms have "build_nodes (\<lambda>i. Node_init net i (apply_cut c' (network_connectivity_matrix net)) None)
                     (sort (remdups node_indices)) = Inr (subsystem_nodes s)"
    by (auto simp: Subsystem_init_def Let_def split: sum.splits)
  then show ?thesis by (rule build_nodes_built_for)
qed

lemma Subsystem_init_fields:
  assumes "Subsystem_init node_indices cs ps net c = Inr s"
  shows "subsystem_node_indices s = sort (remdups node_indices) \<and>
         subsystem_current_state s = cs \<and> subsystem_past_state s = ps \<and>
         subsystem_network s = net"
  using assms
  by (auto simp: Subsystem_init_def Let_def split: option.splits sum.splits if_splits)

lemma built_for_pairwise:
  assumes "built_for net xs as" and "built_for net xs bs"
  shows "list_all2 node_eq as bs"
proof -
  have la: "length as = length xs" and lb: "length bs = length xs"
    using assms by (auto simp: built_for_def dest: list_all2_lengthD)
  show ?thesis
  proof (intro list_all2_all_nthI)
    show "length as = length bs" using la lb by simp
  next
    fix n assume n: "n < length as"
    then have "n < length xs" using la by simp
    then have "node_index (as ! n) = xs ! n \<and> node_network (as ! n) = net"
       and "node_index (bs ! n) = xs ! n \<and> node_network (bs ! n) = net"
      using assms by (auto simp: built_for_def dest: list_all2_nthD)
    then show "node_eq (as ! n) (bs ! n)" by (simp add: node_eq_def)
  qed
qed

lemma pairwise_node_set_eq:
  assumes "list_all2 node_eq as bs"
  shows "node_set_eq as bs"
proof -
  have 1: "\<forall>x\<in>set as. \<exists>y\<in>set bs. node_eq x y"
    using assms by (metis in_set_conv_nth list_all2_conv_all_nth)
  have 2: "\<forall>y\<in>set bs. \<exists>x\<in>set as. node_eq x y"
    using assms by (metis in_set_conv_nth list_all2_conv_all_nth)
  show ?thesis
    using 1 2 by (simp add: node_set_eq_def list_all_iff list_ex_iff)
qed

text \<open>
  Claim C10. Two subsystems built from the same node indices, current state, past state
  and network, with any two cuts (or none), have equal hashes and compare equal: the
  hash is taken of a tuple without the cut, and the nodes of the two subsystems are
  pairwise equal with equal hashes, because node equality and the node hash read only
  the network and the index, whatever adjacency matrix and tensor the node was built
  with.
\<close>

theorem subsystem_identity_excludes_cut:
  assumes "Subsystem_init node_indices current_state past_state net c1 = Inr s1"
      and "Subsystem_init node_indices current_state past_state net c2 = Inr s2"
  shows "subsystem_hash h s1 = subsystem_hash h s2 \<and>
         subsystem_eq s1 s2 \<and>
         list_all2 (\<lambda>a b. node_eq a b \<and> node_hash g a = node_hash g b)
           (subsystem_nodes s1) (subsystem_nodes s2) \<and>
         (\<forall>a b. node_network a = node_network b \<and> node_index a = node_index b
            \<longrightarrow> node_eq a b \<and> node_hash g a = node_hash g b)"
proof -
  note f1 = Subsystem_init_fields[OF assms(1)] and f2 = Subsystem_init_fields[OF assms(2)]
  have pw: "list_all2 node_eq (subsystem_nodes s1) (subsystem_nodes s2)"
    using Subsystem_init_built_for[OF assms(1)] Subsystem_init_built_for[OF assms(2)]
    by (rule built_for_pairwise)
  have "subsystem_hash h s1 = subsystem_hash h s2"
    using f1 f2 by (simp add: subsystem_hash_def)
  moreover have "subsystem_eq s1 s2"
    using f1 f2 pairwise_node_set_eq[OF pw] by (simp add: subsystem_eq_def)
  moreover have "list_all2 (\<lambda>a b. node_eq a b \<and> node_hash g a = node_hash g b)
           (subsystem_nodes s1) (subsystem_nodes s2)"
    using pw by (rule list_all2_mono) (simp add: node_eq_def node_hash_def)
  moreover have "\<forall>a b. node_network a = node_network b \<and> node_index a = node_index b
            \<longrightarrow> node_eq a b \<and> node_hash g a = node_hash g b"
    by (simp add: node_eq_def node_hash_def)
  ultimately show ?thesis by blast
qed

lemma subsystem_example_uncut: "\<not> isl (Subsystem_init [0, 1] [1, 0] [0, 1] copy_network None)"
  by code_simp
lemma subsystem_example_cut: "\<not> isl (Subsystem_init [0, 1] [1, 0] [0, 1] copy_network (Some cut_0_1))"
  by code_simp

theorem subsystem_identity_excludes_cut_witness:
  "\<exists>s1 s2. Subsystem_init [0, 1] [1, 0] [0, 1] copy_network None = Inr s1 \<and>
           Subsystem_init [0, 1] [1, 0] [0, 1] copy_network (Some cut_0_1) = Inr s2 \<and>
           subsystem_cut s1 \<noteq> subsystem_cut s2 \<and>
           subsystem_hash tuple_hash s1 = subsystem_hash tuple_hash s2 \<and>
           subsystem_eq s1 s2"
proof -
  obtain s1 where s1: "Subsystem_init [0, 1] [1, 0] [0, 1] copy_network None = Inr s1"
    using subsystem_example_uncut by (cases "Subsystem_init [0, 1] [1, 0] [0, 1] copy_network None") auto
  obtain s2 where s2: "Subsystem_init [0, 1] [1, 0] [0, 1] copy_network (Some cut_0_1) = Inr s2"
    using subsystem_example_cut by (cases "Subsystem_init [0, 1] [1, 0] [0, 1] copy_network (Some cut_0_1)") auto
  have "subsystem_cut (projr (Subsystem_init [0, 1] [1, 0] [0, 1] copy_network None))
      \<noteq> subsystem_cut (projr (Subsystem_init [0, 1] [1, 0] [0, 1] copy_network (Some cut_0_1)))"
    by code_simp
  then have d: "subsystem_cut s1 \<noteq> subsystem_cut s2" unfolding s1 s2 sum.sel .
  from subsystem_identity_excludes_cut[OF s1 s2, of tuple_hash pair_hash] d s1 s2
  show ?thesis by blast
qed

section \<open>Claim C1: the nodes rebuilt under a cut\<close>

text \<open>
  Claim C1 says that the input set of a node rebuilt for a cut subsystem, and with
  it the axes averaged out of its tensor, follows the adjacency matrix with the cut
  applied, which is handed to the constructor. The constructor stores that matrix but
  reads the input indices from the network's own matrix. In the network where both
  elements feed both, under the cut that severs the edges from element 0 to element 1,
  the subsystem's matrix has no edge from 0 to 1, yet the rebuilt element 1 has the
  inputs 0 and 1, no axis of its tensor is averaged out, and its tensor is the one of
  the uncut network's element 1.
\<close>

theorem rebuilt_node_reads_network_matrix:
  "(case Subsystem_init [0, 1] [1, 0] [0, 1] copy_network (Some cut_0_1) of
      Inl e \<Rightarrow> False
    | Inr s \<Rightarrow>
        subsystem_connectivity_matrix s = Some [[1, 0], [1, 1]] \<and>
        map node_connectivity_matrix (subsystem_nodes s) =
          [Some [[1, 0], [1, 1]], Some [[1, 0], [1, 1]]] \<and>
        map node_input_indices (subsystem_nodes s) = [[0, 1], [0, 1]] \<and>
        map node_dimension_labels (subsystem_nodes s) = [[Some 0, Some 1], [Some 0, Some 1]] \<and>
        map (\<lambda>nd. shape (node_tpm nd)) (subsystem_nodes s) = [[2, 2, 2], [2, 2, 2]] \<and>
        map node_tpm (subsystem_nodes s) =
          map node_tpm (projr (network_nodes copy_network)))"
  by code_simp

section \<open>Claims C6 and C9: the distance between constellations\<close>

text \<open>
  Claim C6 says that in \<^verbatim>\<open>_constellation_distance_emd\<close> the excess of the heavier side
  goes onto the null slot of the other side, so that both phi vectors have equal sums
  and no negative entry, whichever side is heavier. When the second constellation is
  the heavier one the code assigns the (negative) residual itself to the null slot of
  the first: for a first constellation with one concept of phi 1 and a second with
  another concept of phi 2 the vectors are [1, 0, -1] and [0, 2, 0], with sums 0 and 2
  and a negative entry. With the constellations exchanged the vectors are [2, 0, 0] and
  [0, 1, 1].
\<close>

theorem emd_residual_sign:
  "phi_distributions [concept_a] [concept_b] [concept_a] [concept_b] concept_null
     = ([1, 0, - 1], [0, 2, 0]) \<and>
   phi_distributions [concept_b] [concept_a] [concept_b] [concept_a] concept_null
     = ([2, 0, 0], [0, 1, 1])"
  by code_simp

lemma proportional_plan_cost_nonneg: "0 \<le> proportional_plan_cost d1 d2 m"
  unfolding proportional_plan_cost_def
  by (auto intro!: divide_nonneg_nonneg sum_list_nonneg)

lemma proportional_solver_penalty: "extra_mass_penalty d1 d2 m \<le> proportional_solver d1 d2 m"
  unfolding proportional_solver_def using proportional_plan_cost_nonneg[of d1 d2 m] by simp

lemma example_distance_matrix:
  "map (\<lambda>j. map (\<lambda>i. concept_distance (solver_env solver) i j)
                [concept_low, concept_high, concept_centre])
       [concept_low, concept_high, concept_centre] = [[0, 2, 1], [2, 0, 1], [1, 1, 0]]"
  "map (\<lambda>j. map (\<lambda>i. concept_distance (solver_env solver) i j)
                [concept_high, concept_low, concept_centre])
       [concept_high, concept_low, concept_centre] = [[0, 2, 1], [2, 0, 1], [1, 1, 0]]"
  by (simp_all add: concept_distance_def solver_env_def example_env_def half_l1_def
        concept_low_def concept_high_def concept_centre_def)

text \<open>
  Claim C9 says that the distance of a constellation to itself is 0 and that the
  distance is symmetric. The first holds for every constellation. Take the
  constellation of one concept of phi 1 and the constellation of another concept of
  phi 2, the two concepts at distance 2 from each other and at distance 1 from the null
  concept. With the heavier constellation first, the solver is asked for the distance
  between [2, 0, 0] and [0, 1, 1]: a transport problem with equal totals, whose only
  plan costs 2 * 1 + 1 * 1 = 3. With the lighter one first the residual is negative and
  is written as it is into the null slot of the first vector: the solver is asked for
  the distance between [1, 0, -1] and [0, 2, 0], with totals 0 and 2. For every solver
  that charges the difference of the totals at the largest ground distance and answers
  the first problem with its cost, this second distance is at least 4, so the two
  orders give different distances.
\<close>

theorem constellation_distance_orders:
  "constellation_distance ev C C n = 0 \<and>
   constellation_distance (solver_env solver) [concept_low] [concept_high] concept_centre =
     solver [1, 0, - 1] [0, 2, 0] [[0, 2, 1], [2, 0, 1], [1, 1, 0]] \<and>
   constellation_distance (solver_env solver) [concept_high] [concept_low] concept_centre =
     solver [2, 0, 0] [0, 1, 1] [[0, 2, 1], [2, 0, 1], [1, 1, 0]] \<and>
   ((\<forall>d1 d2 m. extra_mass_penalty d1 d2 m \<le> solver d1 d2 m) \<and>
    solver [2, 0, 0] [0, 1, 1] [[0, 2, 1], [2, 0, 1], [1, 1, 0]] = 3
      \<longrightarrow> constellation_distance (solver_env solver) [concept_high] [concept_low] concept_centre
            < constellation_distance (solver_env solver) [concept_low] [concept_high] concept_centre)"
proof -
  have ne: "concept_low \<noteq> concept_high"
    by (simp add: concept_low_def concept_high_def)
  have d1: "phi_distributions [concept_low] [concept_high] [concept_low] [concept_high]
              concept_centre = ([1, 0, - 1], [0, 2, 0])" by code_simp
  have d2: "phi_distributions [concept_high] [concept_low] [concept_high] [concept_low]
              concept_centre = ([2, 0, 0], [0, 1, 1])" by code_simp
  have e: "emd (solver_env solver) = solver"
    by (simp add: solver_env_def)
  have s: "constellation_distance ev C C n = 0"
    by (simp add: constellation_distance_def constellation_distance_simple_def)
  have ab: "constellation_distance (solver_env solver) [concept_low] [concept_high] concept_centre =
     solver [1, 0, - 1] [0, 2, 0] [[0, 2, 1], [2, 0, 1], [1, 1, 0]]"
    using ne
    by (simp add: constellation_distance_def constellation_distance_emd_def d1 e
          example_distance_matrix[simplified])
  have ba: "constellation_distance (solver_env solver) [concept_high] [concept_low] concept_centre =
     solver [2, 0, 0] [0, 1, 1] [[0, 2, 1], [2, 0, 1], [1, 1, 0]]"
    using ne
    by (simp add: constellation_distance_def constellation_distance_emd_def d2 e
          example_distance_matrix[simplified])
  have p: "extra_mass_penalty [1, 0, - 1] [0, 2, 0] [[0, 2, 1], [2, 0, 1], [1, 1, 0]] = 4"
    by (simp add: extra_mass_penalty_def)
  have "constellation_distance (solver_env solver) [concept_high] [concept_low] concept_centre
            < constellation_distance (solver_env solver) [concept_low] [concept_high] concept_centre"
    if h: "(\<forall>d1 d2 m. extra_mass_penalty d1 d2 m \<le> solver d1 d2 m) \<and>
           solver [2, 0, 0] [0, 1, 1] [[0, 2, 1], [2, 0, 1], [1, 1, 0]] = 3"
  proof -
    from h have "extra_mass_penalty [1, 0, - 1] [0, 2, 0] [[0, 2, 1], [2, 0, 1], [1, 1, 0]]
                   \<le> solver [1, 0, - 1] [0, 2, 0] [[0, 2, 1], [2, 0, 1], [1, 1, 0]]"
      by blast
    then have "4 \<le> solver [1, 0, - 1] [0, 2, 0] [[0, 2, 1], [2, 0, 1], [1, 1, 0]]"
      unfolding p .
    moreover from h have "solver [2, 0, 0] [0, 1, 1] [[0, 2, 1], [2, 0, 1], [1, 1, 0]] = 3"
      by blast
    ultimately show ?thesis unfolding ab ba by linarith
  qed
  then show ?thesis using s ab ba by blast
qed

theorem constellation_distance_orders_witness:
  "(\<forall>d1 d2 m. extra_mass_penalty d1 d2 m \<le> proportional_solver d1 d2 m) \<and>
   proportional_solver [2, 0, 0] [0, 1, 1] [[0, 2, 1], [2, 0, 1], [1, 1, 0]] = 3 \<and>
   constellation_distance (solver_env proportional_solver) [concept_high] [concept_low] concept_centre
     < constellation_distance (solver_env proportional_solver) [concept_low] [concept_high] concept_centre"
proof -
  have h1: "\<forall>d1 d2 m. extra_mass_penalty d1 d2 m \<le> proportional_solver d1 d2 m"
    using proportional_solver_penalty by blast
  have h2: "proportional_solver [2, 0, 0] [0, 1, 1] [[0, 2, 1], [2, 0, 1], [1, 1, 0]] = 3"
    by code_simp
  from constellation_distance_orders[of _ "[]" _ proportional_solver] h1 h2
  show ?thesis by blast
qed

section \<open>Claims C2 and C7: the connectivity pre-screens\<close>


















text \<open>
  Claim C7 says that \<^verbatim>\<open>concept\<close> discards a mechanism with an element that has no input
  from, or no output to, the subsystem, from connectivity alone. In the network with
  the single edge from element 0 to element 1, element 0 has no input from the
  subsystem of both elements, and the connectivity test on the node objects says so
  (it returns false). \<^verbatim>\<open>_concept\<close> hands the test the integer indices instead, and
  for the mechanism of element 0 it raises \<^verbatim>\<open>AttributeError\<close> where the claim has it
  return no concept.
\<close>

theorem concept_raises_where_it_should_discard:
  "network_connectivity_matrix (subsystem_network chain_subsystem) = Some [[0, 1], [0, 0]] \<and>
   subsystem_node_indices chain_subsystem = [0, 1] \<and>
   any_connect_to_all chain_subsystem (map PyNode (subsystem_nodes chain_subsystem))
     [PyNode (subsystem_nodes chain_subsystem ! 0)] = Inr False \<and>
   fst (concept_body example_env chain_subsystem [0] empty_cache) = Inl AttributeError \<and>
   fst (concept_of example_env chain_subsystem [0] empty_cache) = Inl AttributeError"
  by code_simp

section \<open>Claim C3: the Mice cache\<close>

lemma get_cached_mice_iff:
  "get_cached_mice ev cache sub d m = Some c \<longleftrightarrow>
     cache (get_mice_key ev sub d m) = Some c \<and> reuse_allowed d (subsystem_cut sub) m (mice_purview c)"
  by (cases d) (auto simp: get_cached_mice_def reuse_allowed_def list_all_iff split: option.splits)

lemma get_cached_mice_None:
  "get_cached_mice ev cache sub d m = None \<longleftrightarrow>
     (\<forall>c. cache (get_mice_key ev sub d m) = Some c \<longrightarrow> \<not> reuse_allowed d (subsystem_cut sub) m (mice_purview c))"
  using get_cached_mice_iff[of ev cache sub d m] by (cases "get_cached_mice ev cache sub d m") auto

lemma cache_mice_present:
  "cache (get_mice_key ev sub d m) = Some c \<Longrightarrow> cache_mice ev cache sub d m x = cache"
  by (simp add: cache_mice_def)

lemma cache_mice_absent:
  "cache (get_mice_key ev sub d m) = None \<Longrightarrow>
     cache_mice ev cache sub d m x = cache(get_mice_key ev sub d m \<mapsto> x)"
  by (simp add: cache_mice_def)

lemma cache_mice_keeps: "cache k = Some c \<Longrightarrow> cache_mice ev cache sub d m x k = Some c"
  by (auto simp: cache_mice_def Let_def)

lemma find_mice_keeps: "cache k = Some c \<Longrightarrow> snd (find_mice ev sub d m cache) k = Some c"
  by (auto simp: find_mice_def cache_mice_keeps split: option.splits sum.splits)

lemma find_mice_hit:
  assumes "cache (get_mice_key ev sub d m) = Some c"
      and "reuse_allowed d (subsystem_cut sub) m (mice_purview c)"
  shows "find_mice ev sub d m cache = (Inr c, cache)"
proof -
  have "get_cached_mice ev cache sub d m = Some c"
    using assms by (simp add: get_cached_mice_iff)
  then show ?thesis by (simp add: find_mice_def)
qed

lemma find_mice_refused:
  assumes "cache (get_mice_key ev sub d m) = Some c"
      and "\<not> reuse_allowed d (subsystem_cut sub) m (mice_purview c)"
  shows "find_mice ev sub d m cache = (compute_mice ev sub d m, cache)"
proof -
  have "get_cached_mice ev cache sub d m = None"
    using assms by (simp add: get_cached_mice_None)
  then show ?thesis
    using assms(1) by (simp add: find_mice_def cache_mice_present split: sum.splits)
qed

lemma find_mice_miss:
  assumes "cache (get_mice_key ev sub d m) = None"
  shows "find_mice ev sub d m cache =
           (case compute_mice ev sub d m of
              Inl e \<Rightarrow> (Inl e, cache)
            | Inr x \<Rightarrow> (Inr x, cache(get_mice_key ev sub d m \<mapsto> x)))"
proof -
  have "get_cached_mice ev cache sub d m = None"
    using assms by (simp add: get_cached_mice_None)
  then show ?thesis
    using assms by (simp add: find_mice_def cache_mice_absent split: sum.splits)
qed

lemma get_mice_key_identity:
  assumes "subsystem_node_indices s1 = subsystem_node_indices s2"
      and "subsystem_current_state s1 = subsystem_current_state s2"
      and "subsystem_past_state s1 = subsystem_past_state s2"
      and "subsystem_network s1 = subsystem_network s2"
  shows "get_mice_key ev s1 d m = get_mice_key ev s2 d m"
  using assms by (simp add: get_mice_key_def subsystem_hash_def)

text \<open>
  Claim C3 as stated has the cache hold only values computed under the null cut. The
  code stores the first value computed for a key, whatever the cut of the subsystem it
  was computed on: a first search on the subsystem under a cut, with nothing cached,
  stores its result.
\<close>

theorem first_search_under_a_cut_is_cached:
  "subsystem_cut memory_cut_subsystem \<noteq> subsystem_null_cut memory_cut_subsystem \<and>
   empty_cache (get_mice_key example_env memory_cut_subsystem Past [0]) = None \<and>
   \<not> isl (compute_mice example_env memory_cut_subsystem Past [0]) \<and>
   snd (find_mice example_env memory_cut_subsystem Past [0] empty_cache)
     (get_mice_key example_env memory_cut_subsystem Past [0])
     = Some (projr (compute_mice example_env memory_cut_subsystem Past [0]))"
  by code_simp

text \<open>
  Claim C3, amended. The cache is written once per key: \<^verbatim>\<open>_cache_mice\<close> stores a value
  only under a key that is absent, so a stored value is never overwritten, by any later
  search; the value stored is the first one computed for the key, under whatever cut.
  Subsystems that agree in node indices, states and network have the same key,
  whatever their cuts. With a value cached under the key, \<^verbatim>\<open>_get_cached_mice\<close> returns
  it if and only if the reuse condition holds for the cut of the asking subsystem
  (cause: every mechanism element severed or every cached purview element intact;
  effect: every mechanism element intact or every cached purview element severed);
  then \<^verbatim>\<open>find_mice\<close> returns the cached value and leaves the cache alone; otherwise it
  returns the result of a new search, which is not stored.
\<close>

theorem mice_cache_store_once_and_reuse:
  "(cache (get_mice_key ev sub d m) = Some c \<longrightarrow> cache_mice ev cache sub d m x = cache) \<and>
   (cache (get_mice_key ev sub d m) = None \<longrightarrow>
      cache_mice ev cache sub d m x = cache(get_mice_key ev sub d m \<mapsto> x)) \<and>
   (cache k = Some c \<longrightarrow> snd (find_mice ev sub d m cache) k = Some c) \<and>
   (subsystem_node_indices sub = subsystem_node_indices sub' \<and>
    subsystem_current_state sub = subsystem_current_state sub' \<and>
    subsystem_past_state sub = subsystem_past_state sub' \<and>
    subsystem_network sub = subsystem_network sub'
      \<longrightarrow> get_mice_key ev sub d m = get_mice_key ev sub' d m) \<and>
   (get_cached_mice ev cache sub d m = Some c \<longleftrightarrow>
      cache (get_mice_key ev sub d m) = Some c \<and>
      reuse_allowed d (subsystem_cut sub) m (mice_purview c)) \<and>
   (cache (get_mice_key ev sub d m) = Some c \<and>
    reuse_allowed d (subsystem_cut sub) m (mice_purview c)
      \<longrightarrow> find_mice ev sub d m cache = (Inr c, cache)) \<and>
   (cache (get_mice_key ev sub d m) = Some c \<and>
    \<not> reuse_allowed d (subsystem_cut sub) m (mice_purview c)
      \<longrightarrow> find_mice ev sub d m cache = (compute_mice ev sub d m, cache)) \<and>
   (cache (get_mice_key ev sub d m) = None
      \<longrightarrow> find_mice ev sub d m cache =
            (case compute_mice ev sub d m of
               Inl e \<Rightarrow> (Inl e, cache)
             | Inr y \<Rightarrow> (Inr y, cache(get_mice_key ev sub d m \<mapsto> y))))"
proof (intro conjI impI)
  show "cache (get_mice_key ev sub d m) = Some c \<Longrightarrow> cache_mice ev cache sub d m x = cache"
    by (rule cache_mice_present)
  show "cache (get_mice_key ev sub d m) = None \<Longrightarrow>
      cache_mice ev cache sub d m x = cache(get_mice_key ev sub d m \<mapsto> x)"
    by (rule cache_mice_absent)
  show "cache k = Some c \<Longrightarrow> snd (find_mice ev sub d m cache) k = Some c"
    by (rule find_mice_keeps)
  show "subsystem_node_indices sub = subsystem_node_indices sub' \<and>
    subsystem_current_state sub = subsystem_current_state sub' \<and>
    subsystem_past_state sub = subsystem_past_state sub' \<and>
    subsystem_network sub = subsystem_network sub'
      \<Longrightarrow> get_mice_key ev sub d m = get_mice_key ev sub' d m"
    by (elim conjE) (rule get_mice_key_identity)
  show "get_cached_mice ev cache sub d m = Some c \<longleftrightarrow>
      cache (get_mice_key ev sub d m) = Some c \<and>
      reuse_allowed d (subsystem_cut sub) m (mice_purview c)"
    by (rule get_cached_mice_iff)
  show "cache (get_mice_key ev sub d m) = Some c \<and>
    reuse_allowed d (subsystem_cut sub) m (mice_purview c)
      \<Longrightarrow> find_mice ev sub d m cache = (Inr c, cache)"
    by (elim conjE) (rule find_mice_hit)
  show "cache (get_mice_key ev sub d m) = Some c \<and>
    \<not> reuse_allowed d (subsystem_cut sub) m (mice_purview c)
      \<Longrightarrow> find_mice ev sub d m cache = (compute_mice ev sub d m, cache)"
    by (elim conjE) (rule find_mice_refused)
  show "cache (get_mice_key ev sub d m) = None
      \<Longrightarrow> find_mice ev sub d m cache =
            (case compute_mice ev sub d m of
               Inl e \<Rightarrow> (Inl e, cache)
             | Inr y \<Rightarrow> (Inr y, cache(get_mice_key ev sub d m \<mapsto> y)))"
    by (rule find_mice_miss)
qed


theorem mice_cache_store_once_and_reuse_witness:
  "subsystem_cut memory_cut_subsystem \<noteq> subsystem_cut memory_subsystem \<and>
   memory_cache (get_mice_key example_env memory_cut_subsystem Past [0]) = Some memory_core_cause \<and>
   reuse_allowed Past (subsystem_cut memory_cut_subsystem) [0] (mice_purview memory_core_cause) \<and>
   find_mice example_env memory_cut_subsystem Past [0] memory_cache
     = (Inr memory_core_cause, memory_cache) \<and>
   cache_mice example_env memory_cache memory_cut_subsystem Past [0] memory_core_cause = memory_cache"
proof -
  have a: "subsystem_cut memory_cut_subsystem \<noteq> subsystem_cut memory_subsystem"
    by code_simp
  have b: "memory_cache (get_mice_key example_env memory_cut_subsystem Past [0])
             = Some memory_core_cause"
    by code_simp
  have c: "reuse_allowed Past (subsystem_cut memory_cut_subsystem) [0]
             (mice_purview memory_core_cause)"
    by code_simp
  note T = mice_cache_store_once_and_reuse[of memory_cache example_env memory_cut_subsystem
             Past "[0]" memory_core_cause memory_core_cause]
  have d: "find_mice example_env memory_cut_subsystem Past [0] memory_cache
             = (Inr memory_core_cause, memory_cache)"
    using T b c by blast
  have e: "cache_mice example_env memory_cache memory_cut_subsystem Past [0] memory_core_cause = memory_cache"
    using T b by blast
  show ?thesis by (intro conjI a b c d e)
qed

section \<open>Claim C4: the search for the minimum information partition\<close>







lemma mip_bipartition_set:
  "set (mip_bipartition ev mechanism purview) =
     {(\<lparr>part_mechanism = m0, part_purview = q0\<rparr>, \<lparr>part_mechanism = m1, part_purview = q1\<rparr>)
      | m0 m1 q0 q1.
        (m0, m1) \<in> set (bipartition_nodes ev mechanism) \<and>
        ((q0, q1) \<in> set (bipartition_nodes ev purview) \<or>
         (q1, q0) \<in> set (bipartition_nodes ev purview)) \<and>
        (m0 \<noteq> [] \<or> q0 \<noteq> []) \<and> (m1 \<noteq> [] \<or> q1 \<noteq> [])}"
  unfolding mip_bipartition_def Let_def
  by (auto split: if_splits) force+




section \<open>Claim C5: the terminal cases of the search over cuts\<close>

text \<open>
  With \<^verbatim>\<open>EPSILON\<close> not negative and distances that are never negative, the phi of
  every BigMip that \<^verbatim>\<open>big_mip\<close> returns is at least 0; a subsystem of one element gets
  the single-element result, the empty subsystem the null result, and so does a subsystem
  for which the check on the adjacency matrix answers that it is split.
\<close>

lemma concept_body_phi:
  assumes "concept_body ev sub m cache = (Inr (Some c), cache')"
  shows "EPSILON ev \<le> concept_phi c"
  using assms
  by (auto simp: concept_body_def Let_def split: sum.splits if_splits prod.splits)

lemma concept_of_phi:
  assumes "concept_of ev sub m cache = (Inr (Some c), cache')"
  shows "EPSILON ev \<le> concept_phi c"
  using assms concept_body_phi
  by (auto simp: concept_of_def split: sum.splits)

lemma map_state_all:
  assumes "\<And>x s y s'. f x s = (Inr y, s') \<Longrightarrow> P y"
      and "map_state f xs s = (Inr ys, s')"
  shows "list_all P ys"
  using assms(2)
proof (induction xs arbitrary: s ys)
  case Nil
  then show ?case by simp
next
  case (Cons a xs)
  from Cons.prems obtain y s1 ys' where fa: "f a s = (Inr y, s1)"
    and rest: "map_state f xs s1 = (Inr ys', s')" and ys: "ys = y # ys'"
    by (auto split: prod.splits sum.splits)
  from assms(1)[OF fa] Cons.IH[OF rest] ys show ?case by simp
qed

lemma constellation_phi:
  assumes "constellation ev sub cache = (Inr cs, cache')"
  shows "list_all (\<lambda>c. EPSILON ev \<le> concept_phi c) cs"
proof -
  from assms obtain concepts where
    ms: "map_state (concept_of ev sub) (powerset (subsystem_node_indices sub)) cache = (Inr concepts, cache')"
    and cs: "cs = concat (map (\<lambda>c. case c of None \<Rightarrow> [] | Some x \<Rightarrow> [x]) concepts)"
    by (auto simp: constellation_def split: prod.splits sum.splits)
  have "list_all (\<lambda>r. case r of None \<Rightarrow> True | Some c \<Rightarrow> EPSILON ev \<le> concept_phi c) concepts"
  proof (rule map_state_all[OF _ ms])
    fix x s y s'
    assume "concept_of ev sub x s = (Inr y, s')"
    then show "case y of None \<Rightarrow> True | Some c \<Rightarrow> EPSILON ev \<le> concept_phi c"
      using concept_of_phi by (cases y) auto
  qed
  then show ?thesis
    unfolding cs by (induction concepts) (auto split: option.splits)
qed


lemma sum_list_nonneg_products:
  fixes f g :: "'a \<Rightarrow> real"
  assumes "list_all (\<lambda>c. 0 \<le> f c \<and> 0 \<le> g c) xs"
  shows "0 \<le> sum_list (map (\<lambda>c. f c * g c) xs)"
  using assms by (induction xs) (auto intro: add_nonneg_nonneg)

lemma constellation_distance_nonneg:
  assumes "\<forall>a b. 0 \<le> hamming_emd ev a b"
      and "\<forall>d1 d2 m. 0 \<le> emd ev d1 d2 m"
      and "list_all (\<lambda>c. 0 \<le> concept_phi c) C1"
      and "list_all (\<lambda>c. 0 \<le> concept_phi c) C2"
  shows "0 \<le> constellation_distance ev C1 C2 n"
proof -
  have cd: "\<And>c. 0 \<le> concept_distance ev c n"
    using assms(1) by (simp add: concept_distance_def)
  have simple: "0 \<le> constellation_distance_simple ev C1 C2 n"
    unfolding constellation_distance_simple_def Let_def
    using assms(3,4) cd
    by (intro sum_list_nonneg_products) (auto simp: list_all_iff)
  have emd: "\<And>u1 u2. 0 \<le> constellation_distance_emd ev C1 C2 u1 u2 n"
    using assms(2) by (simp add: constellation_distance_emd_def Let_def split: prod.splits)
  show ?thesis
    using simple emd by (simp add: constellation_distance_def Let_def)
qed

lemma evaluate_direction_phi:
  assumes "\<forall>a b. 0 \<le> hamming_emd ev a b"
      and "\<forall>d1 d2 m. 0 \<le> emd ev d1 d2 m"
      and "0 \<le> EPSILON ev"
      and "list_all (\<lambda>c. 0 \<le> concept_phi c) unpartitioned"
      and "evaluate_direction ev sub c unpartitioned cache = (Inr m, cache')"
  shows "0 \<le> bigmip_phi m"
proof -
  from assms(5) obtain cut_sub cs cache1 n where
    con: "constellation ev cut_sub cache = (Inr cs, cache1)"
    and m: "bigmip_phi m = constellation_distance ev unpartitioned cs n"
    by (auto simp: evaluate_direction_def split: sum.splits prod.splits)
  have "list_all (\<lambda>c. EPSILON ev \<le> concept_phi c) cs"
    by (rule constellation_phi[OF con])
  then have "list_all (\<lambda>c. 0 \<le> concept_phi c) cs"
    using assms(3) by (auto simp: list_all_iff)
  from constellation_distance_nonneg[OF assms(1,2,4) this] m show ?thesis by simp
qed

lemma evaluate_cut_phi:
  assumes "\<forall>a b. 0 \<le> hamming_emd ev a b"
      and "\<forall>d1 d2 m. 0 \<le> emd ev d1 d2 m"
      and "0 \<le> EPSILON ev"
      and "list_all (\<lambda>c. 0 \<le> concept_phi c) unpartitioned"
      and "evaluate_cut ev sub unpartitioned bipart cache = (Inr m, cache')"
  shows "0 \<le> bigmip_phi m"
proof -
  from assms(5) obtain f b c1 c2 where
    f: "evaluate_direction ev sub \<lparr>severed = fst bipart, intact = snd bipart\<rparr> unpartitioned cache
          = (Inr f, c1)"
    and b: "evaluate_direction ev sub \<lparr>severed = snd bipart, intact = fst bipart\<rparr> unpartitioned c1
          = (Inr b, c2)"
    and m: "m = f \<or> m = b"
    by (auto simp: evaluate_cut_def split: sum.splits prod.splits if_splits)
  from evaluate_direction_phi[OF assms(1-4) f] evaluate_direction_phi[OF assms(1-4) b] m
  show ?thesis by auto
qed

lemma min_from_member: "min_from ev best xs = Inr m \<Longrightarrow> m = best \<or> m \<in> set xs"
  by (induction xs arbitrary: best) (auto split: sum.splits if_splits)

lemma min_bigmip_member: "min_bigmip ev xs = Inr m \<Longrightarrow> m \<in> set xs"
  using min_from_member by (cases xs) (auto simp: min_bigmip_def)

lemma big_mip_phi_nonneg:
  assumes "\<forall>a b. 0 \<le> hamming_emd ev a b"
      and "\<forall>d1 d2 m. 0 \<le> emd ev d1 d2 m"
      and "0 \<le> EPSILON ev"
      and "big_mip ev sub cache = (Inr m, cache')"
  shows "0 \<le> bigmip_phi m"
proof -
  consider (terminal) "m = single_node_mip ev sub \<or> m = null_bigmip sub"
    | (search) unpartitioned cache1 candidates where
        "constellation ev sub cache = (Inr unpartitioned, cache1)"
        "map_state (evaluate_cut ev sub unpartitioned)
           (drop 1 (bipartition_indices ev (subsystem_node_indices sub))) cache1
         = (Inr candidates, cache')"
        "min_bigmip ev candidates = Inr m"
    using assms(4)
    by (auto simp: big_mip_def Let_def split: if_splits sum.splits prod.splits)
  then show ?thesis
  proof cases
    case terminal
    then show ?thesis by (auto simp: single_node_mip_def null_bigmip_def)
  next
    case search
    have u: "list_all (\<lambda>c. 0 \<le> concept_phi c) unpartitioned"
      using constellation_phi[OF search(1)] assms(3) by (auto simp: list_all_iff)
    have "list_all (\<lambda>x. 0 \<le> bigmip_phi x) candidates"
    proof (rule map_state_all[OF _ search(2)])
      fix x s y s'
      assume "evaluate_cut ev sub unpartitioned x s = (Inr y, s')"
      then show "0 \<le> bigmip_phi y" by (rule evaluate_cut_phi[OF assms(1-3) u])
    qed
    with min_bigmip_member[OF search(3)] show ?thesis by (simp add: list_all_iff)
  qed
qed

lemma big_mip_single:
  assumes "length (subsystem_node_indices sub) = 1"
  shows "big_mip ev sub cache = (Inr (single_node_mip ev sub), cache)"
  using assms by (simp add: big_mip_def)

lemma big_mip_empty:
  assumes "subsystem_node_indices sub = []"
  shows "big_mip ev sub cache = (Inr (null_bigmip sub), cache)"
  using assms by (simp add: big_mip_def)

lemma disconnected_iff:
  "disconnected sub = Inr True \<longleftrightarrow>
     subsystem_connectivity_matrix sub \<noteq> None \<and>
     (\<exists>ncm cm. network_connectivity_matrix (subsystem_network sub) = Some ncm \<and>
        submatrix ncm (subsystem_node_indices sub) (subsystem_node_indices sub) = Inr cm \<and>
        1 < connected_components cm)"
  by (auto simp: disconnected_def split: option.splits sum.splits)

lemma big_mip_disconnected:
  assumes "length (subsystem_node_indices sub) \<noteq> 1"
      and "disconnected sub = Inr True"
  shows "big_mip ev sub cache = (Inr (null_bigmip sub), cache)"
  using assms by (simp add: big_mip_def)

lemma big_mip_no_bipartition:
  assumes "length (subsystem_node_indices sub) \<noteq> 1"
      and "disconnected sub = Inr False"
      and "drop 1 (bipartition_indices ev (subsystem_node_indices sub)) = []"
  shows "big_mip ev sub cache = (Inr (null_bigmip sub), cache)"
  using assms by (simp add: big_mip_def)

text \<open>
  Claim C5 says that the BigMip is the null result, with phi 0, whenever the induced
  connectivity of the subsystem has more than one strongly connected component. The
  check in \<^verbatim>\<open>_big_mip\<close>, under the comment \<^verbatim>\<open>Get the number of strongly connected
  components\<close>, calls \<^verbatim>\<open>connected_components\<close> with its default arguments, which count
  the weakly connected components. In the network with the single edge from element 0
  to element 1, the subsystem of both elements has two strongly connected components
  and one weakly connected component: the check does not fire and the null result is
  not returned. The search goes on to the constellation, where it raises
  \<^verbatim>\<open>AttributeError\<close>.
\<close>

theorem weakly_connected_subsystem_is_searched:
  "subsystem_node_indices chain_subsystem = [0, 1] \<and>
   network_connectivity_matrix (subsystem_network chain_subsystem) = Some [[0, 1], [0, 0]] \<and>
   submatrix [[0, 1], [0, 0]] [0, 1] [0, 1] = Inr [[0, 1], [0, 0]] \<and>
   strongly_connected_components [[0, 1], [0, 0]] = 2 \<and>
   connected_components [[0, 1], [0, 0]] = 1 \<and>
   disconnected chain_subsystem = Inr False \<and>
   fst (big_mip example_env chain_subsystem empty_cache) = Inl AttributeError"
  by code_simp

section \<open>Claim C8: the sums of the repertoires\<close>

text \<open>
  Sums over the index tuples of a shape, and the arrays that the operations of the
  model return. Then the invariants: the table of every node that \<^verbatim>\<open>Node.__init__\<close>
  builds for a well-formed network holds probabilities that add up to 1 over the state
  of the node; the conditional joint distribution of \<^verbatim>\<open>cause_repertoire\<close> has no
  negative entry; in \<^verbatim>\<open>effect_repertoire\<close> the entries of the accumulated array add up to
  1 for every past state.
\<close>

lemma sum_list_concat_map:
  fixes f :: "'a \<Rightarrow> real"
  shows "sum_list (map f (concat (map g xs))) = sum_list (map (\<lambda>x. sum_list (map f (g x))) xs)"
  by (induction xs) simp_all

lemma sum_list_swap:
  fixes f :: "'a \<Rightarrow> 'b \<Rightarrow> real"
  shows "sum_list (map (\<lambda>x. sum_list (map (f x) ys)) xs)
           = sum_list (map (\<lambda>y. sum_list (map (\<lambda>x. f x y) xs)) ys)"
proof (induction xs)
  case Nil
  then show ?case by simp
next
  case (Cons x xs)
  show ?case by (simp add: Cons.IH sum_list_addf)
qed

lemma length_indices: "length (indices s) = prod_list s"
proof (induction s)
  case Nil
  then show ?case by simp
next
  case (Cons n s)
  have "length (concat (map (\<lambda>i. map (\<lambda>idx. i # idx) (indices s)) [0..<n]))
          = sum_list (map (\<lambda>i. prod_list s) [0..<n])"
    by (simp add: length_concat comp_def Cons.IH)
  also have "\<dots> = n * prod_list s" by (simp add: sum_list_triv)
  finally show ?case by simp
qed

lemma set_indices: "set (indices s) = {idx. in_bounds s idx}"
proof (induction s)
  case Nil
  then show ?case by (auto simp: in_bounds_def)
next
  case (Cons n s)
  show ?case
  proof (rule set_eqI)
    fix idx
    show "idx \<in> set (indices (n # s)) \<longleftrightarrow> idx \<in> {idx. in_bounds (n # s) idx}"
      using Cons.IH by (cases idx) (auto simp: in_bounds_def)
  qed
qed

lemma in_bounds_Nil [simp]: "in_bounds [] idx \<longleftrightarrow> idx = []"
  by (simp add: in_bounds_def)

lemma in_bounds_Cons [simp]: "in_bounds (n # s) (i # idx) \<longleftrightarrow> i < n \<and> in_bounds s idx"
  by (simp add: in_bounds_def)

lemma in_bounds_length: "in_bounds s idx \<Longrightarrow> length idx = length s"
  by (simp add: in_bounds_def list_all2_lengthD)

lemma in_bounds_nth: "in_bounds s idx \<Longrightarrow> k < length s \<Longrightarrow> idx ! k < s ! k"
  by (simp add: in_bounds_def list_all2_nthD2)

lemma in_bounds_iff:
  "in_bounds s idx \<longleftrightarrow> length idx = length s \<and> (\<forall>k<length s. idx ! k < s ! k)"
  by (auto simp: in_bounds_def list_all2_conv_all_nth)

lemma in_bounds_append:
  assumes "length x = length F"
  shows "in_bounds (F @ G) (x @ y) \<longleftrightarrow> in_bounds F x \<and> in_bounds G y"
  using assms by (simp add: in_bounds_def list_all2_append)

lemma in_bounds_append_split:
  assumes "in_bounds (F @ G) idx"
  obtains x y where "idx = x @ y" "in_bounds F x" "in_bounds G y"
  using assms unfolding in_bounds_def list_all2_append2 by blast

lemma in_bounds_update:
  assumes "in_bounds s idx" and "j < t"
  shows "in_bounds (s[k := t]) (idx[k := j])"
  using assms unfolding in_bounds_def by (simp add: list_all2_update_cong)

lemma in_bounds_restore:
  assumes "in_bounds (s[k := t]) idx" and "k < length s" and "j < s ! k"
  shows "in_bounds s (idx[k := j])"
proof -
  have "in_bounds ((s[k := t])[k := s ! k]) (idx[k := j])"
    using assms(1,3) by (rule in_bounds_update)
  then show ?thesis by simp
qed

lemma shifted_upt: "map (\<lambda>r. a + r) [0..<p] = [a..<a + p]"
  by (induction p) simp_all

lemma blocks_upt_aux: "concat (map (\<lambda>i. [i * p..<i * p + p]) [0..<n]) = [0..<n * p]"
proof (induction n)
  case 0
  then show ?case by simp
next
  case (Suc n)
  have "concat (map (\<lambda>i. [i * p..<i * p + p]) [0..<Suc n])
          = [0..<n * p] @ [n * p..<n * p + p]"
    using Suc by simp
  also have "\<dots> = [0..<n * p + p]"
    using upt_add_eq_append[of 0 "n * p" p] by simp
  also have "n * p + p = Suc n * p" by simp
  finally show ?case .
qed

lemma blocks_upt: "concat (map (\<lambda>i. map (\<lambda>r. i * p + r) [0..<p]) [0..<n]) = [0..<n * p]"
  by (simp only: shifted_upt blocks_upt_aux)

lemma ravel_indices: "map (ravel s) (indices s) = [0..<prod_list s]"
proof (induction s)
  case Nil
  then show ?case by simp
next
  case (Cons n s)
  have "map (ravel (n # s)) (indices (n # s))
          = concat (map (\<lambda>i. map (\<lambda>idx. i * prod_list s + ravel s idx) (indices s)) [0..<n])"
    by (simp add: map_concat comp_def)
  also have "\<dots> = concat (map (\<lambda>i. map (\<lambda>r. i * prod_list s + r) (map (ravel s) (indices s))) [0..<n])"
    by (simp add: comp_def)
  also have "\<dots> = [0..<n * prod_list s]"
    unfolding Cons.IH by (rule blocks_upt)
  finally show ?case by simp
qed

lemma ravel_nth_indices:
  assumes "k < prod_list s"
  shows "ravel s (indices s ! k) = k"
proof -
  have "map (ravel s) (indices s) ! k = [0..<prod_list s] ! k"
    by (simp add: ravel_indices)
  then show ?thesis using assms by (simp add: length_indices)
qed

lemma in_bounds_ravel:
  assumes "in_bounds s idx"
  shows "ravel s idx < prod_list s" and "indices s ! ravel s idx = idx"
proof -
  from assms have "idx \<in> set (indices s)" by (simp add: set_indices)
  then obtain k where k: "k < length (indices s)" "indices s ! k = idx"
    by (auto simp: in_set_conv_nth)
  then have "ravel s idx = k"
    using ravel_nth_indices[of k s] by (simp add: length_indices)
  with k show "ravel s idx < prod_list s" and "indices s ! ravel s idx = idx"
    by (simp_all add: length_indices)
qed

lemma ravel_append:
  assumes "length x = length F"
  shows "ravel (F @ G) (x @ y) = ravel F x * prod_list G + ravel G y"
  using assms
proof (induction F arbitrary: x)
  case Nil
  then show ?case by simp
next
  case (Cons n F)
  then obtain i x' where x: "x = i # x'" and l: "length x' = length F"
    by (cases x) auto
  show ?case unfolding x using Cons.IH[OF l] by (simp add: algebra_simps)
qed

lemma sum_indices_append:
  fixes f :: "nat list \<Rightarrow> real"
  shows "sum_list (map f (indices (F @ G)))
           = sum_list (map (\<lambda>x. sum_list (map (\<lambda>y. f (x @ y)) (indices G))) (indices F))"
proof (induction F arbitrary: f)
  case Nil
  then show ?case by simp
next
  case (Cons n F)
  show ?case
    by (simp add: sum_list_concat_map comp_def Cons.IH)
qed

lemma sum_indices_axis:
  fixes f :: "nat list \<Rightarrow> real"
  assumes "k < length s"
  shows "sum_list (map f (indices s))
           = sum_list (map (\<lambda>idx. sum_list (map (\<lambda>j. f (idx[k := j])) [0..<s ! k]))
                         (indices (s[k := 1])))"
  using assms
proof (induction s arbitrary: k f)
  case Nil
  then show ?case by simp
next
  case (Cons n s)
  show ?case
  proof (cases k)
    case 0
    have "sum_list (map f (indices (n # s)))
            = sum_list (map (\<lambda>i. sum_list (map (\<lambda>r. f (i # r)) (indices s))) [0..<n])"
      by (simp add: sum_list_concat_map comp_def)
    also have "\<dots> = sum_list (map (\<lambda>r. sum_list (map (\<lambda>i. f (i # r)) [0..<n])) (indices s))"
      by (rule sum_list_swap)
    finally show ?thesis using 0 by (simp add: comp_def)
  next
    case (Suc k')
    with Cons.prems have k': "k' < length s" by simp
    show ?thesis
      unfolding Suc
      by (simp add: sum_list_concat_map comp_def Cons.IH[OF k'])
  qed
qed

lemma shape_mk_array [simp]: "shape (mk_array s f) = s"
  by (simp add: mk_array_def)

lemma data_mk_array: "data (mk_array s f) = map f (indices s)"
  by (simp add: mk_array_def)

lemma well_shaped_mk_array [simp]: "well_shaped (mk_array s f)"
  by (simp add: well_shaped_def mk_array_def length_indices)

lemma item_mk_array:
  assumes "in_bounds s idx"
  shows "item (mk_array s f) idx = f idx"
  using in_bounds_ravel[OF assms] by (simp add: item_def mk_array_def length_indices)

lemma well_shaped_data:
  assumes "well_shaped a"
  shows "data a = map (item a) (indices (shape a))"
proof (rule nth_equalityI)
  show "length (data a) = length (map (item a) (indices (shape a)))"
    using assms by (simp add: well_shaped_def length_indices)
next
  fix k assume "k < length (data a)"
  then have k: "k < prod_list (shape a)" using assms by (simp add: well_shaped_def)
  then show "data a ! k = map (item a) (indices (shape a)) ! k"
    by (simp add: length_indices item_def ravel_nth_indices)
qed

lemma np_sum_items:
  assumes "well_shaped a"
  shows "np_sum a = sum_list (map (item a) (indices (shape a)))"
  using well_shaped_data[OF assms] by (simp add: np_sum_def)

lemma np_sum_mk_array: "np_sum (mk_array s f) = sum_list (map f (indices s))"
  unfolding np_sum_def data_mk_array ..

lemma item_in_data:
  assumes "well_shaped a" and "in_bounds (shape a) idx"
  shows "item a idx \<in> set (data a)"
  using in_bounds_ravel(1)[OF assms(2)] assms(1) by (simp add: item_def well_shaped_def)

lemma item_nonneg:
  assumes "well_shaped a" and "nonneg a" and "in_bounds (shape a) idx"
  shows "0 \<le> item a idx"
  using item_in_data[OF assms(1,3)] assms(2) by (simp add: nonneg_def list_all_iff)

lemma nonneg_mk_array:
  assumes "\<And>idx. in_bounds s idx \<Longrightarrow> 0 \<le> f idx"
  shows "nonneg (mk_array s f)"
  using assms by (simp add: nonneg_def data_mk_array list_all_iff set_indices)

lemma nonneg_items:
  assumes "well_shaped a" and "\<And>idx. in_bounds (shape a) idx \<Longrightarrow> 0 \<le> item a idx"
  shows "nonneg a"
  unfolding nonneg_def well_shaped_data[OF assms(1)]
  using assms(2) by (simp add: list_all_iff set_indices)

lemma shape_divide_scalar [simp]: "shape (divide_scalar a c) = shape a"
  by (simp add: divide_scalar_def)

lemma well_shaped_divide_scalar: "well_shaped a \<Longrightarrow> well_shaped (divide_scalar a c)"
  by (simp add: divide_scalar_def well_shaped_def)

lemma item_divide_scalar:
  assumes "well_shaped a" and "in_bounds (shape a) idx"
  shows "item (divide_scalar a c) idx = item a idx / c"
  using in_bounds_ravel(1)[OF assms(2)] assms(1)
  by (simp add: item_def divide_scalar_def well_shaped_def)

lemma shape_one_minus [simp]: "shape (one_minus a) = shape a"
  by (simp add: one_minus_def)

lemma well_shaped_one_minus: "well_shaped a \<Longrightarrow> well_shaped (one_minus a)"
  by (simp add: one_minus_def well_shaped_def)

lemma item_one_minus:
  assumes "well_shaped a" and "in_bounds (shape a) idx"
  shows "item (one_minus a) idx = 1 - item a idx"
  using in_bounds_ravel(1)[OF assms(2)] assms(1)
  by (simp add: item_def one_minus_def well_shaped_def)

lemma shape_sum_keepdims [simp]: "shape (sum_keepdims a k) = (shape a)[k := 1]"
  by (simp add: sum_keepdims_def)

lemma well_shaped_sum_keepdims [simp]: "well_shaped (sum_keepdims a k)"
  by (simp add: sum_keepdims_def)

lemma item_sum_keepdims:
  assumes "in_bounds ((shape a)[k := 1]) idx"
  shows "item (sum_keepdims a k) idx
           = sum_list (map (\<lambda>j. item a (idx[k := j])) [0..<shape a ! k])"
  unfolding sum_keepdims_def by (rule item_mk_array[OF assms])

lemma shape_take_keepdims [simp]: "shape (take_keepdims a k v) = (shape a)[k := 1]"
  by (simp add: take_keepdims_def)

lemma well_shaped_take_keepdims [simp]: "well_shaped (take_keepdims a k v)"
  by (simp add: take_keepdims_def)

lemma item_take_keepdims:
  assumes "in_bounds ((shape a)[k := 1]) idx"
  shows "item (take_keepdims a k v) idx = item a (idx[k := v])"
  unfolding take_keepdims_def by (rule item_mk_array[OF assms])

lemma shape_select_first [simp]: "shape (select_first a v) = tl (shape a)"
  by (simp add: select_first_def)

lemma well_shaped_select_first [simp]: "well_shaped (select_first a v)"
  by (simp add: select_first_def)

lemma item_select_first:
  assumes "in_bounds (tl (shape a)) idx"
  shows "item (select_first a v) idx = item a (v # idx)"
  unfolding select_first_def by (rule item_mk_array[OF assms])

lemma shape_stack2 [simp]: "shape (stack2 a0 a1) = 2 # shape a1"
  by (simp add: stack2_def)

lemma well_shaped_stack2:
  assumes "well_shaped a0" and "well_shaped a1" and "shape a0 = shape a1"
  shows "well_shaped (stack2 a0 a1)"
  using assms by (simp add: stack2_def well_shaped_def)

lemma item_stack2:
  assumes "well_shaped a0" and "well_shaped a1" and "shape a0 = shape a1"
      and "in_bounds (shape a1) x"
  shows "item (stack2 a0 a1) (0 # x) = item a0 x"
    and "item (stack2 a0 a1) (1 # x) = item a1 x"
proof -
  have r: "ravel (shape a1) x < prod_list (shape a1)"
    by (rule in_bounds_ravel(1)[OF assms(4)])
  have l0: "length (data a0) = prod_list (shape a1)"
    using assms(1,3) by (simp add: well_shaped_def)
  show "item (stack2 a0 a1) (0 # x) = item a0 x"
    using r l0 assms(3) by (simp add: item_def stack2_def nth_append)
  show "item (stack2 a0 a1) (1 # x) = item a1 x"
    using r l0 by (simp add: item_def stack2_def nth_append)
qed

lemma shape_rotate [simp]: "shape (rotate_first_to_last a) = tl (shape a) @ [hd (shape a)]"
  by (simp add: rotate_first_to_last_def)

lemma well_shaped_rotate [simp]: "well_shaped (rotate_first_to_last a)"
  by (simp add: rotate_first_to_last_def)

lemma item_rotate:
  assumes "in_bounds (tl (shape a) @ [hd (shape a)]) idx"
  shows "item (rotate_first_to_last a) idx = item a (last idx # butlast idx)"
  unfolding rotate_first_to_last_def by (rule item_mk_array[OF assms])

lemma reshape_Inr:
  assumes "reshape a s = Inr r"
  shows "shape r = s" and "data r = data a" and "prod_list s = prod_list (shape a)"
  using assms by (auto simp: reshape_def split: if_splits)

lemma sum_list_div:
  fixes xs :: "real list"
  shows "sum_list (map (\<lambda>x. x / c) xs) = sum_list xs / c"
  by (induction xs) (simp_all add: add_divide_distrib)

lemma np_sum_divide_scalar: "np_sum (divide_scalar a c) = np_sum a / c"
  by (simp add: np_sum_def divide_scalar_def sum_list_div)

lemma length_clip: "length idx = length s \<Longrightarrow> length (clip s idx) = length s"
  by (simp add: clip_def)

lemma clip_nth:
  assumes "k < length s" and "length idx = length s"
  shows "clip s idx ! k = (if s ! k = 1 then 0 else idx ! k)"
  using assms by (simp add: clip_def)

lemma clip_append:
  assumes "length x = length F"
  shows "clip (F @ G) (x @ y) = clip F x @ clip G y"
  using assms by (simp add: clip_def)

lemma clip_in_bounds_id:
  assumes "in_bounds s idx"
  shows "clip s idx = idx"
proof (rule nth_equalityI)
  show "length (clip s idx) = length idx"
    using in_bounds_length[OF assms] by (simp add: clip_def)
next
  fix k assume "k < length (clip s idx)"
  then have k: "k < length s" using in_bounds_length[OF assms] by (simp add: clip_def)
  from in_bounds_nth[OF assms k] show "clip s idx ! k = idx ! k"
    using k in_bounds_length[OF assms] by (simp add: clip_nth)
qed

lemma clip_in_bounds:
  assumes "length s = length t"
      and "\<forall>k<length s. 0 < s ! k"
      and "list_all2 (\<lambda>a b. a = b \<or> a = 1 \<or> b = 1) s t"
      and "in_bounds (map2 max s t) idx"
  shows "in_bounds s (clip s idx)"
proof -
  have l: "length idx = length s"
    using in_bounds_length[OF assms(4)] assms(1) by simp
  show ?thesis
    unfolding in_bounds_iff
  proof (intro conjI allI impI)
    show "length (clip s idx) = length s" using l by (rule length_clip)
  next
    fix k assume k: "k < length s"
    have b: "idx ! k < max (s ! k) (t ! k)"
      using in_bounds_nth[OF assms(4), of k] k assms(1) by simp
    have c: "s ! k = t ! k \<or> s ! k = 1 \<or> t ! k = 1"
      using assms(3) k by (simp add: list_all2_conv_all_nth)
    have p: "0 < s ! k" using assms(2) k by simp
    show "clip s idx ! k < s ! k"
      using b c p by (auto simp: clip_nth[OF k l] max_def split: if_splits)
  qed
qed

lemma bview_same_rank:
  assumes "length idx = length (shape a)"
  shows "bview a idx = item a (clip (shape a) idx)"
  using assms by (simp add: bview_def clip_def)

lemma broadcast_same_rank:
  assumes "length s = length t"
  shows "broadcast_shape s t = map2 max s t"
    and "broadcastable s t = list_all2 (\<lambda>a b. a = b \<or> a = 1 \<or> b = 1) s t"
  using assms by (simp_all add: broadcast_shape_def broadcastable_def pad_shape_def)

lemma multiply_Inr:
  assumes "multiply a b = Inr r"
  shows "r = mk_array (broadcast_shape (shape a) (shape b)) (\<lambda>idx. bview a idx * bview b idx)"
    and "broadcastable (shape a) (shape b)"
  using assms by (auto simp: multiply_def split: if_splits)

lemma imultiply_Inr:
  assumes "imultiply a b = Inr r"
  shows "r = mk_array (shape a) (\<lambda>idx. bview a idx * bview b idx)"
    and "broadcastable (shape a) (shape b)"
    and "broadcast_shape (shape a) (shape b) = shape a"
  using assms by (auto simp: imultiply_def multiply_def split: if_splits)

lemma in_bounds_replicate_nth:
  "in_bounds (replicate n c) x \<Longrightarrow> length x = n"
  by (drule in_bounds_length) simp

lemma tables_initial:
  assumes "well_formed_network net" and "index < network_size net"
  shows "tables (network_size net)
           (mk_array (replicate (network_size net) 2) (\<lambda>s. item (network_tpm net) (s @ [index])))
           (one_minus (mk_array (replicate (network_size net) 2)
                         (\<lambda>s. item (network_tpm net) (s @ [index]))))"
proof -
  let ?n = "network_size net"
  let ?on = "mk_array (replicate ?n 2) (\<lambda>s. item (network_tpm net) (s @ [index]))"
  have sh: "shape (network_tpm net) = replicate ?n 2 @ [?n]"
    and ws: "well_shaped (network_tpm net)"
    and pr: "list_all (\<lambda>v. 0 \<le> v \<and> v \<le> 1) (data (network_tpm net))"
    using assms(1) by (simp_all add: well_formed_network_def)
  have it: "item ?on x = item (network_tpm net) (x @ [index])
            \<and> 0 \<le> item (network_tpm net) (x @ [index])
            \<and> item (network_tpm net) (x @ [index]) \<le> 1"
    if x: "in_bounds (replicate ?n 2) x" for x
  proof -
    have l: "length x = length (replicate ?n (2::nat))" using in_bounds_length[OF x] .
    have "in_bounds (replicate ?n 2 @ [?n]) (x @ [index])"
      unfolding in_bounds_append[OF l] using x assms(2) by simp
    then have "item (network_tpm net) (x @ [index]) \<in> set (data (network_tpm net))"
      using item_in_data[OF ws] sh by simp
    then have "0 \<le> item (network_tpm net) (x @ [index]) \<and> item (network_tpm net) (x @ [index]) \<le> 1"
      using pr by (simp add: list_all_iff)
    then show ?thesis using item_mk_array[OF x] by simp
  qed
  show ?thesis
    unfolding tables_def
  proof (intro conjI allI impI)
    show "well_shaped ?on" by simp
    show "well_shaped (one_minus ?on)" by (simp add: well_shaped_one_minus)
    show "shape (one_minus ?on) = shape ?on" by simp
    show "length (shape ?on) = ?n" by simp
  next
    fix k assume "k < ?n"
    then show "0 < shape ?on ! k" by simp
  next
    fix x assume "in_bounds (shape ?on) x"
    then have x: "in_bounds (replicate ?n 2) x" by simp
    have om: "item (one_minus ?on) x = 1 - item ?on x"
      by (rule item_one_minus) (simp_all add: x)
    show "item ?on x + item (one_minus ?on) x = 1" unfolding om by simp
    show "0 \<le> item ?on x" using it[OF x] by simp
    show "0 \<le> item (one_minus ?on) x" unfolding om using it[OF x] by simp
  qed
qed

lemma tables_marginalize:
  assumes "tables n on off" and "m < n" and "shape on ! m = 2"
  shows "tables n (divide_scalar (sum_keepdims on m) 2) (divide_scalar (sum_keepdims off m) 2)"
proof -
  have won: "well_shaped on" and woff: "well_shaped off" and sh: "shape off = shape on"
    and len: "length (shape on) = n" and pos: "\<forall>k<n. 0 < shape on ! k"
    and its: "\<And>x. in_bounds (shape on) x \<Longrightarrow>
                 item on x + item off x = 1 \<and> 0 \<le> item on x \<and> 0 \<le> item off x"
    using assms(1) by (simp_all add: tables_def)
  have two: "[0..<2] = [0, Suc 0]" by (simp add: upt_rec)
  have ev: "item (divide_scalar (sum_keepdims on m) 2) x
              = (item on (x[m := 0]) + item on (x[m := 1])) / 2 \<and>
            item (divide_scalar (sum_keepdims off m) 2) x
              = (item off (x[m := 0]) + item off (x[m := 1])) / 2 \<and>
            in_bounds (shape on) (x[m := 0]) \<and> in_bounds (shape on) (x[m := 1])"
    if x: "in_bounds ((shape on)[m := 1]) x" for x
  proof -
    have m: "m < length (shape on)" using assms(2) len by simp
    have b0: "in_bounds (shape on) (x[m := 0])"
      by (rule in_bounds_restore[OF x m]) (simp add: assms(3))
    have b1: "in_bounds (shape on) (x[m := 1])"
      by (rule in_bounds_restore[OF x m]) (simp add: assms(3))
    have xo: "in_bounds (shape (sum_keepdims on m)) x" using x by simp
    have xf: "in_bounds (shape (sum_keepdims off m)) x" using x by (simp add: sh)
    have a: "item (divide_scalar (sum_keepdims on m) 2) x = item (sum_keepdims on m) x / 2"
      by (rule item_divide_scalar[OF well_shaped_sum_keepdims xo])
    have b: "item (divide_scalar (sum_keepdims off m) 2) x = item (sum_keepdims off m) x / 2"
      by (rule item_divide_scalar[OF well_shaped_sum_keepdims xf])
    have c: "item (sum_keepdims on m) x = item on (x[m := 0]) + item on (x[m := 1])"
      using item_sum_keepdims[of on m x] x by (simp add: assms(3) two)
    have d: "item (sum_keepdims off m) x = item off (x[m := 0]) + item off (x[m := 1])"
      using item_sum_keepdims[of off m x] x by (simp add: assms(3) two sh)
    show ?thesis using a b c d b0 b1 by simp
  qed
  show ?thesis
    unfolding tables_def
  proof (intro conjI allI impI)
    show "well_shaped (divide_scalar (sum_keepdims on m) 2)"
      by (simp add: well_shaped_divide_scalar)
    show "well_shaped (divide_scalar (sum_keepdims off m) 2)"
      by (simp add: well_shaped_divide_scalar)
    show "shape (divide_scalar (sum_keepdims off m) 2) = shape (divide_scalar (sum_keepdims on m) 2)"
      by (simp add: sh)
    show "length (shape (divide_scalar (sum_keepdims on m) 2)) = n"
      by (simp add: len)
  next
    fix k assume "k < n"
    then show "0 < shape (divide_scalar (sum_keepdims on m) 2) ! k"
      using pos len assms(2) by (simp add: nth_list_update)
  next
    fix x assume "in_bounds (shape (divide_scalar (sum_keepdims on m) 2)) x"
    then have x: "in_bounds ((shape on)[m := 1]) x" by simp
    note e = ev[OF x]
    from e have b0: "in_bounds (shape on) (x[m := 0])" and b1: "in_bounds (shape on) (x[m := 1])"
      by simp_all
    show "item (divide_scalar (sum_keepdims on m) 2) x
            + item (divide_scalar (sum_keepdims off m) 2) x = 1"
      using e its[OF b0] its[OF b1] by (simp add: field_simps)
    show "0 \<le> item (divide_scalar (sum_keepdims on m) 2) x"
      using e its[OF b0] its[OF b1] by simp
    show "0 \<le> item (divide_scalar (sum_keepdims off m) 2) x"
      using e its[OF b0] its[OF b1] by simp
  qed
qed

lemma marginalize_fold:
  assumes "tables n on0 off0" and "shape on0 = replicate n 2" and "m \<le> n"
  shows "case foldl (marginalize_step ins) ([], 0, on0, off0) [0..<m] of
           (labels, current, on, off) \<Rightarrow>
             tables n on off \<and> (\<forall>k. m \<le> k \<and> k < n \<longrightarrow> shape on ! k = 2)"
  using assms(3)
proof (induction m)
  case 0
  then show ?case using assms(1,2) by simp
next
  case (Suc m)
  then have m: "m < n" and IH: "case foldl (marginalize_step ins) ([], 0, on0, off0) [0..<m] of
           (labels, current, on, off) \<Rightarrow>
             tables n on off \<and> (\<forall>k. m \<le> k \<and> k < n \<longrightarrow> shape on ! k = 2)"
    by simp_all
  obtain labels current on off where
    st: "foldl (marginalize_step ins) ([], 0, on0, off0) [0..<m] = (labels, current, on, off)"
    by (metis prod_cases4)
  from IH st have t: "tables n on off" and two: "\<forall>k. m \<le> k \<and> k < n \<longrightarrow> shape on ! k = 2"
    by simp_all
  have len: "length (shape on) = n" using t by (simp add: tables_def)
  have step: "foldl (marginalize_step ins) ([], 0, on0, off0) [0..<Suc m]
                = marginalize_step ins (labels, current, on, off) m"
    by (simp add: st)
  show ?case
  proof (cases "m \<in> set ins")
    case True
    then show ?thesis unfolding step using t two by (simp add: marginalize_step_def)
  next
    case False
    have sm: "shape on ! m = 2" using two m by simp
    have t': "tables n (divide_scalar (sum_keepdims on m) 2) (divide_scalar (sum_keepdims off m) 2)"
      by (rule tables_marginalize[OF t m sm])
    show ?thesis unfolding step using False t' two len
      by (simp add: marginalize_step_def nth_list_update)
  qed
qed

lemma stochastic_table_stack2:
  assumes "tables n on off"
  shows "stochastic_table n (stack2 off on)"
proof -
  have won: "well_shaped on" and woff: "well_shaped off" and sh: "shape off = shape on"
    and len: "length (shape on) = n" and pos: "\<forall>k<n. 0 < shape on ! k"
    and its: "\<And>x. in_bounds (shape on) x \<Longrightarrow>
                 item on x + item off x = 1 \<and> 0 \<le> item on x \<and> 0 \<le> item off x"
    using assms(1) by (simp_all add: tables_def)
  show ?thesis
    unfolding stochastic_table_def
  proof (intro conjI allI impI)
    show "well_shaped (stack2 off on)" by (rule well_shaped_stack2[OF woff won sh])
    show "length (shape (stack2 off on)) = Suc n" by (simp add: len)
    show "hd (shape (stack2 off on)) = 2" by simp
  next
    fix k assume "k < n"
    then show "0 < tl (shape (stack2 off on)) ! k" using pos by simp
  next
    fix x assume "in_bounds (tl (shape (stack2 off on))) x"
    then have x: "in_bounds (shape on) x" by simp
    note i = item_stack2[OF woff won sh x]
    show "item (stack2 off on) (0 # x) + item (stack2 off on) (1 # x) = 1"
      unfolding i using its[OF x] by simp
    show "0 \<le> item (stack2 off on) (0 # x)" unfolding i using its[OF x] by simp
    show "0 \<le> item (stack2 off on) (1 # x)" unfolding i using its[OF x] by simp
  qed
qed

lemma Node_init_table:
  assumes "well_formed_network net" and "Node_init net index cm lbl = Inr nd"
  shows "stochastic_table (network_size net) (node_tpm nd)"
    and "node_index nd < network_size net"
proof -
  let ?n = "network_size net"
  let ?on = "mk_array (replicate ?n 2) (\<lambda>s. item (network_tpm net) (s @ [index]))"
  from assms(2) obtain ins labels current on off where
    lt: "index < ?n" and
    st: "foldl (marginalize_step ins) ([], 0, ?on, one_minus ?on) [0..<?n]
           = (labels, current, on, off)" and
    tp: "node_tpm nd = stack2 off on" and ix: "node_index nd = index"
    by (auto simp: Node_init_def Let_def split: sum.splits if_splits prod.splits)
  have t0: "tables ?n ?on (one_minus ?on)" by (rule tables_initial[OF assms(1) lt])
  have "tables ?n on off"
    using marginalize_fold[OF t0, of ?n ins] st by simp
  then have "stochastic_table ?n (stack2 off on)" by (rule stochastic_table_stack2)
  then show "stochastic_table ?n (node_tpm nd)" and "node_index nd < ?n"
    using lt tp ix by simp_all
qed

lemma clip_in_bounds_nth:
  assumes "length idx = length s"
      and "\<forall>k<length s. 0 < s ! k \<and> (s ! k = 1 \<or> idx ! k < s ! k)"
  shows "in_bounds s (clip s idx)"
  unfolding in_bounds_iff
proof (intro conjI allI impI)
  show "length (clip s idx) = length s" using assms(1) by (rule length_clip)
next
  fix k assume k: "k < length s"
  show "clip s idx ! k < s ! k"
    using assms(2) k by (auto simp: clip_nth[OF k assms(1)])
qed

lemma clip_in_bounds_left:
  assumes "length s = length t"
      and "\<forall>k<length s. 0 < s ! k"
      and "list_all2 (\<lambda>a b. a = b \<or> a = 1 \<or> b = 1) s t"
      and "in_bounds (map2 max s t) idx"
  shows "in_bounds s (clip s idx)"
proof (rule clip_in_bounds_nth)
  show l: "length idx = length s"
    using in_bounds_length[OF assms(4)] assms(1) by simp
  show "\<forall>k<length s. 0 < s ! k \<and> (s ! k = 1 \<or> idx ! k < s ! k)"
  proof (intro allI impI)
    fix k assume k: "k < length s"
    have b: "idx ! k < max (s ! k) (t ! k)"
      using in_bounds_nth[OF assms(4), of k] k assms(1) by simp
    have c: "s ! k = t ! k \<or> s ! k = 1 \<or> t ! k = 1"
      using assms(3) k by (simp add: list_all2_conv_all_nth)
    have p: "0 < s ! k" using assms(2) k by simp
    show "0 < s ! k \<and> (s ! k = 1 \<or> idx ! k < s ! k)"
      using b c p by (auto simp: max_def split: if_splits)
  qed
qed

lemma clip_in_bounds_right:
  assumes "length s = length t"
      and "\<forall>k<length t. 0 < t ! k"
      and "list_all2 (\<lambda>a b. a = b \<or> a = 1 \<or> b = 1) s t"
      and "in_bounds (map2 max s t) idx"
  shows "in_bounds t (clip t idx)"
proof (rule clip_in_bounds_nth)
  show l: "length idx = length t"
    using in_bounds_length[OF assms(4)] assms(1) by simp
  show "\<forall>k<length t. 0 < t ! k \<and> (t ! k = 1 \<or> idx ! k < t ! k)"
  proof (intro allI impI)
    fix k assume k: "k < length t"
    have b: "idx ! k < max (s ! k) (t ! k)"
      using in_bounds_nth[OF assms(4), of k] k assms(1) by simp
    have c: "s ! k = t ! k \<or> s ! k = 1 \<or> t ! k = 1"
      using assms(3) k assms(1) by (simp add: list_all2_conv_all_nth)
    have p: "0 < t ! k" using assms(2) k by simp
    show "0 < t ! k \<and> (t ! k = 1 \<or> idx ! k < t ! k)"
      using b c p by (auto simp: max_def split: if_splits)
  qed
qed

lemma fold_err_invariant:
  assumes "\<And>a x r. P a \<Longrightarrow> x \<in> set xs \<Longrightarrow> f a x = Inr r \<Longrightarrow> P r"
      and "P a" and "fold_err f xs a = Inr r"
  shows "P r"
  using assms
proof (induction xs arbitrary: a)
  case Nil
  then show ?case by simp
next
  case (Cons x xs)
  from Cons.prems(3) obtain a' where a': "f a x = Inr a'" and rest: "fold_err f xs a' = Inr r"
    by (auto split: sum.splits)
  have Pa': "P a'" by (rule Cons.prems(1)[OF Cons.prems(2) _ a']) simp
  show ?case
    by (rule Cons.IH[OF _ Pa' rest]) (auto intro: Cons.prems(1))
qed

lemma nonneg_array_condition_on:
  assumes "nonneg_array n a" and "condition_on state a nd = Inr r"
  shows "nonneg_array n r"
proof -
  let ?i = "node_index nd"
  from assms(2) have i: "?i < length (shape a)" and v: "state ! ?i < shape a ! ?i"
    and r: "r = take_keepdims a ?i (state ! ?i)"
    by (auto simp: condition_on_def Let_def split: if_splits)
  have len: "length (shape a) = n" and pos: "\<forall>k<n. 0 < shape a ! k"
    and its: "\<And>x. in_bounds (shape a) x \<Longrightarrow> 0 \<le> item a x"
    using assms(1) by (simp_all add: nonneg_array_def)
  show ?thesis
    unfolding nonneg_array_def r
  proof (intro conjI allI impI)
    show "well_shaped (take_keepdims a ?i (state ! ?i))" by simp
    show "length (shape (take_keepdims a ?i (state ! ?i))) = n" by (simp add: len)
  next
    fix k assume "k < n"
    then show "0 < shape (take_keepdims a ?i (state ! ?i)) ! k"
      using pos len i by (simp add: nth_list_update)
  next
    fix x assume "in_bounds (shape (take_keepdims a ?i (state ! ?i))) x"
    then have x: "in_bounds ((shape a)[?i := 1]) x" by simp
    have "in_bounds (shape a) (x[?i := state ! ?i])"
      by (rule in_bounds_restore[OF x i v])
    then show "0 \<le> item (take_keepdims a ?i (state ! ?i)) x"
      unfolding item_take_keepdims[OF x] by (rule its)
  qed
qed

lemma nonneg_array_marginalize_out:
  assumes "nonneg_array n a" and "marginalize_out a nd = Inr r"
  shows "nonneg_array n r"
proof -
  let ?i = "node_index nd"
  from assms(2) have i: "?i < length (shape a)"
    and r: "r = divide_scalar (sum_keepdims a ?i) (real (shape a ! ?i))"
    by (auto simp: marginalize_out_def Let_def split: if_splits)
  have len: "length (shape a) = n" and pos: "\<forall>k<n. 0 < shape a ! k"
    and its: "\<And>x. in_bounds (shape a) x \<Longrightarrow> 0 \<le> item a x"
    using assms(1) by (simp_all add: nonneg_array_def)
  show ?thesis
    unfolding nonneg_array_def r
  proof (intro conjI allI impI)
    show "well_shaped (divide_scalar (sum_keepdims a ?i) (real (shape a ! ?i)))"
      by (simp add: well_shaped_divide_scalar)
    show "length (shape (divide_scalar (sum_keepdims a ?i) (real (shape a ! ?i)))) = n"
      by (simp add: len)
  next
    fix k assume "k < n"
    then show "0 < shape (divide_scalar (sum_keepdims a ?i) (real (shape a ! ?i))) ! k"
      using pos len i by (simp add: nth_list_update)
  next
    fix x assume "in_bounds (shape (divide_scalar (sum_keepdims a ?i) (real (shape a ! ?i)))) x"
    then have x: "in_bounds ((shape a)[?i := 1]) x" by simp
    have xs: "in_bounds (shape (sum_keepdims a ?i)) x" using x by simp
    have d: "item (divide_scalar (sum_keepdims a ?i) (real (shape a ! ?i))) x
               = item (sum_keepdims a ?i) x / real (shape a ! ?i)"
      by (rule item_divide_scalar[OF well_shaped_sum_keepdims xs])
    have "0 \<le> sum_list (map (\<lambda>j. item a (x[?i := j])) [0..<shape a ! ?i])"
    proof (rule sum_list_nonneg)
      fix v assume "v \<in> set (map (\<lambda>j. item a (x[?i := j])) [0..<shape a ! ?i])"
      then obtain j where j: "j < shape a ! ?i" and vj: "v = item a (x[?i := j])" by auto
      have "in_bounds (shape a) (x[?i := j])" by (rule in_bounds_restore[OF x i j])
      then show "0 \<le> v" unfolding vj by (rule its)
    qed
    then show "0 \<le> item (divide_scalar (sum_keepdims a ?i) (real (shape a ! ?i))) x"
      unfolding d item_sum_keepdims[OF x] by simp
  qed
qed

lemma nonneg_array_select_first:
  assumes "stochastic_table n t" and "v < 2"
  shows "nonneg_array n (select_first t v)"
proof -
  have len: "length (shape t) = Suc n" and pos: "\<forall>k<n. 0 < tl (shape t) ! k"
    and its: "\<And>x. in_bounds (tl (shape t)) x \<Longrightarrow> 0 \<le> item t (0 # x) \<and> 0 \<le> item t (1 # x)"
    using assms(1) by (simp_all add: stochastic_table_def)
  from assms(2) have v: "v = 0 \<or> v = 1" by auto
  show ?thesis
    unfolding nonneg_array_def
  proof (intro conjI allI impI)
    show "well_shaped (select_first t v)" by simp
    show "length (shape (select_first t v)) = n" using len by simp
  next
    fix k assume "k < n"
    then show "0 < shape (select_first t v) ! k" using pos by simp
  next
    fix x assume "in_bounds (shape (select_first t v)) x"
    then have x: "in_bounds (tl (shape t)) x" by simp
    show "0 \<le> item (select_first t v) x"
      unfolding item_select_first[OF x] using its[OF x] v by auto
  qed
qed

lemma nonneg_array_imultiply:
  assumes "nonneg_array n a" and "nonneg_array n b" and "imultiply a b = Inr r"
  shows "nonneg_array n r"
proof -
  note m = imultiply_Inr[OF assms(3)]
  have wa: "well_shaped a" and la: "length (shape a) = n" and pa: "\<forall>k<n. 0 < shape a ! k"
    and ia: "\<And>x. in_bounds (shape a) x \<Longrightarrow> 0 \<le> item a x"
    using assms(1) by (simp_all add: nonneg_array_def)
  have wb: "well_shaped b" and lb: "length (shape b) = n" and pb: "\<forall>k<n. 0 < shape b ! k"
    and ib: "\<And>x. in_bounds (shape b) x \<Longrightarrow> 0 \<le> item b x"
    using assms(2) by (simp_all add: nonneg_array_def)
  have ll: "length (shape a) = length (shape b)" using la lb by simp
  have bc: "list_all2 (\<lambda>a b. a = b \<or> a = 1 \<or> b = 1) (shape a) (shape b)"
    using m(2) broadcast_same_rank(2)[OF ll] by simp
  have bs: "map2 max (shape a) (shape b) = shape a"
    using m(3) broadcast_same_rank(1)[OF ll] by simp
  show ?thesis
    unfolding nonneg_array_def m(1)
  proof (intro conjI allI impI)
    show "well_shaped (mk_array (shape a) (\<lambda>idx. bview a idx * bview b idx))" by simp
    show "length (shape (mk_array (shape a) (\<lambda>idx. bview a idx * bview b idx))) = n"
      by (simp add: la)
  next
    fix k assume "k < n"
    then show "0 < shape (mk_array (shape a) (\<lambda>idx. bview a idx * bview b idx)) ! k"
      using pa by simp
  next
    fix x assume "in_bounds (shape (mk_array (shape a) (\<lambda>idx. bview a idx * bview b idx))) x"
    then have x: "in_bounds (shape a) x" by simp
    have lx: "length x = length (shape a)" by (rule in_bounds_length[OF x])
    have xm: "in_bounds (map2 max (shape a) (shape b)) x" using x bs by simp
    have va: "bview a x = item a x"
      using bview_same_rank[OF lx] clip_in_bounds_id[OF x] by simp
    have cb: "in_bounds (shape b) (clip (shape b) x)"
      by (rule clip_in_bounds_right[OF ll _ bc xm]) (simp add: lb pb)
    have vb: "bview b x = item b (clip (shape b) x)"
      by (rule bview_same_rank) (simp add: lx ll)
    show "0 \<le> item (mk_array (shape a) (\<lambda>idx. bview a idx * bview b idx)) x"
      unfolding item_mk_array[OF x] va vb using ia[OF x] ib[OF cb] by simp
  qed
qed

lemma constructed_table:
  assumes "well_formed_network net" and "constructed net nd"
  shows "stochastic_table (network_size net) (node_tpm nd)"
    and "node_index nd < network_size net"
    and "node_network nd = net"
  using Node_init_table[OF assms(1)] assms(2) Node_init_identity
  unfolding constructed_def by blast+

lemma set_dedup_nodes: "set (dedup_nodes xs) \<subseteq> set xs"
  by (induction xs rule: dedup_nodes.induct) auto

lemma dedup_nodes_Nil: "dedup_nodes xs = [] \<longleftrightarrow> xs = []"
  by (cases xs) simp_all

lemma validate_nodelist_set:
  assumes "validate_nodelist xs = Inr ys"
  shows "set ys \<subseteq> set xs" and "ys = [] \<longleftrightarrow> xs = []"
proof -
  from assms have ys: "ys = sort_key node_index (dedup_nodes xs)"
    by (simp add: validate_nodelist_def)
  show "set ys \<subseteq> set xs" unfolding ys using set_dedup_nodes by simp
  have "ys = [] \<longleftrightarrow> dedup_nodes xs = []"
    unfolding ys by (metis length_0_conv length_sort)
  then show "ys = [] \<longleftrightarrow> xs = []" by (simp add: dedup_nodes_Nil)
qed

lemma network_nodes_length:
  assumes "network_nodes net = Inr nds"
  shows "length nds = network_size net"
  using network_nodes_built_for[OF assms] by (auto simp: built_for_def dest: list_all2_lengthD)

lemma nonneg_array_np_ones:
  assumes "length s = n" and "\<forall>k<n. 0 < s ! k"
  shows "nonneg_array n (np_ones s)"
  unfolding nonneg_array_def np_ones_def
  using assms by (simp add: item_mk_array)

lemma purview_shape_props:
  "length (purview_shape nds purview) = length nds"
  "k < length nds \<Longrightarrow> 0 < purview_shape nds purview ! k"
  by (simp_all add: purview_shape_def)

lemma nonneg_array_cause_step:
  assumes "nonneg_array n cjd" and "stochastic_table n (node_tpm mechanism_node)"
      and "cause_step sub nds purview cjd mechanism_node = Inr r"
  shows "nonneg_array n r"
proof -
  from assms(3) obtain bs ms conditioned marginalized where
    v: "subsystem_current_state sub ! node_index mechanism_node < 2" and
    c: "fold_err (condition_on (subsystem_past_state sub)) bs
          (select_first (node_tpm mechanism_node)
             (subsystem_current_state sub ! node_index mechanism_node)) = Inr conditioned" and
    m: "fold_err marginalize_out ms conditioned = Inr marginalized" and
    r: "imultiply cjd marginalized = Inr r"
    by (auto simp: cause_step_def Let_def split: sum.splits if_splits)
  have s: "nonneg_array n (select_first (node_tpm mechanism_node)
             (subsystem_current_state sub ! node_index mechanism_node))"
    by (rule nonneg_array_select_first[OF assms(2) v])
  have cn: "nonneg_array n conditioned"
    by (rule fold_err_invariant[where P = "nonneg_array n", OF _ s c])
       (rule nonneg_array_condition_on)
  have mn: "nonneg_array n marginalized"
    by (rule fold_err_invariant[where P = "nonneg_array n", OF _ cn m])
       (rule nonneg_array_marginalize_out)
  show ?thesis by (rule nonneg_array_imultiply[OF assms(1) mn r])
qed

lemma nonneg_array_cause_cjd:
  assumes "well_formed_network (subsystem_network sub)"
      and "list_all (constructed (subsystem_network sub)) mechanism"
      and "cause_cjd sub mechanism purview = Inr cjd"
  shows "nonneg_array (network_size (subsystem_network sub)) cjd"
proof -
  let ?net = "subsystem_network sub"
  let ?n = "network_size ?net"
  from assms(3) obtain nds where nds: "network_nodes ?net = Inr nds"
    and f: "fold_err (cause_step sub nds purview) mechanism (np_ones (purview_shape nds purview))
              = Inr cjd"
    by (auto simp: cause_cjd_def split: sum.splits)
  have len: "length nds = ?n" by (rule network_nodes_length[OF nds])
  have o: "nonneg_array ?n (np_ones (purview_shape nds purview))"
    by (rule nonneg_array_np_ones) (simp_all add: purview_shape_props len)
  show ?thesis
  proof (rule fold_err_invariant[where P = "nonneg_array ?n", OF _ o f])
    fix a x r
    assume a: "nonneg_array ?n a" and x: "x \<in> set mechanism"
      and s: "cause_step sub nds purview a x = Inr r"
    from x assms(2) have "constructed ?net x" by (simp add: list_all_iff)
    then have "stochastic_table ?n (node_tpm x)"
      by (rule constructed_table(1)[OF assms(1)])
    then show "nonneg_array ?n r" using s by (rule nonneg_array_cause_step[OF a])
  qed
qed

lemma nonneg_array_zero_sum:
  assumes "nonneg_array n a" and "np_sum a = 0"
  shows "list_all (\<lambda>v. v = 0) (data a)"
proof -
  have w: "well_shaped a" and its: "\<And>x. in_bounds (shape a) x \<Longrightarrow> 0 \<le> item a x"
    using assms(1) by (simp_all add: nonneg_array_def)
  have "nonneg a" by (rule nonneg_items[OF w its])
  then have "\<forall>v\<in>set (data a). 0 \<le> v" by (simp add: nonneg_def list_all_iff)
  then have "\<forall>v\<in>set (data a). v = 0"
    using assms(2) by (simp add: np_sum_def sum_list_nonneg_eq_0_iff)
  then show ?thesis by (simp add: list_all_iff)
qed

lemma cause_repertoire_cases:
  assumes "cause_repertoire sub mechanism purview = Inr r"
      and "mechanism \<noteq> []" and "purview \<noteq> []"
  obtains cjd where
    "cause_cjd sub (sort_key node_index (dedup_nodes mechanism))
       (sort_key node_index (dedup_nodes purview)) = Inr cjd"
    "r = (if np_sum cjd \<noteq> 0 then divide_scalar cjd (np_sum cjd) else cjd)"
proof -
  have m: "sort_key node_index (dedup_nodes mechanism) \<noteq> []"
    using validate_nodelist_set(2)[of mechanism] assms(2) by (simp add: validate_nodelist_def)
  have p: "sort_key node_index (dedup_nodes purview) \<noteq> []"
    using validate_nodelist_set(2)[of purview] assms(3) by (simp add: validate_nodelist_def)
  from assms(1) m p that show ?thesis
    by (auto simp: cause_repertoire_def validate_nodelist_def Let_def split: sum.splits if_splits)
qed

lemma cause_repertoire_normalised:
  assumes "well_formed_network (subsystem_network sub)"
      and "list_all (constructed (subsystem_network sub)) mechanism"
      and "cause_repertoire sub mechanism purview = Inr r"
      and "mechanism \<noteq> []" and "purview \<noteq> []"
  shows "\<exists>cjd. cause_cjd sub (sort_key node_index (dedup_nodes mechanism))
                  (sort_key node_index (dedup_nodes purview)) = Inr cjd \<and>
               (np_sum cjd \<noteq> 0 \<longrightarrow> r = divide_scalar cjd (np_sum cjd) \<and> np_sum r = 1) \<and>
               (np_sum cjd = 0 \<longrightarrow> r = cjd \<and> list_all (\<lambda>v. v = 0) (data r))"
proof -
  from cause_repertoire_cases[OF assms(3,4,5)] obtain cjd where
    c: "cause_cjd sub (sort_key node_index (dedup_nodes mechanism))
          (sort_key node_index (dedup_nodes purview)) = Inr cjd" and
    r: "r = (if np_sum cjd \<noteq> 0 then divide_scalar cjd (np_sum cjd) else cjd)"
    by blast
  have "set (sort_key node_index (dedup_nodes mechanism)) \<subseteq> set mechanism"
    using set_dedup_nodes by simp
  then have "list_all (constructed (subsystem_network sub))
               (sort_key node_index (dedup_nodes mechanism))"
    using assms(2) unfolding list_all_iff by blast
  then have n: "nonneg_array (network_size (subsystem_network sub)) cjd"
    using c by (rule nonneg_array_cause_cjd[OF assms(1)])
  have z: "np_sum cjd = 0 \<Longrightarrow> list_all (\<lambda>v. v = 0) (data cjd)"
    by (rule nonneg_array_zero_sum[OF n])
  show ?thesis
    using c r z by (intro exI[of _ cjd]) (simp add: np_sum_divide_scalar)
qed

lemma prod_list_ones: "prod_list (replicate n (Suc 0)) = Suc 0"
  by (induction n) simp_all

lemma ravel_ones: "ravel (replicate n (Suc 0)) (replicate n 0) = 0"
  by (induction n) simp_all

lemma length_unit_shape [simp]: "length (unit_shape n A) = n"
  by (simp add: unit_shape_def)

lemma length_unit_index [simp]: "length (unit_index n A j) = n"
  by (simp add: unit_index_def)

lemma prod_unit_shape: "A < n \<Longrightarrow> prod_list (unit_shape n A) = 2"
proof (induction n arbitrary: A)
  case 0
  then show ?case by simp
next
  case (Suc n)
  show ?case
  proof (cases A)
    case 0
    then show ?thesis by (simp add: unit_shape_def prod_list_ones)
  next
    case (Suc A')
    with Suc.prems have "A' < n" by simp
    from Suc.IH[OF this] show ?thesis unfolding Suc by (simp add: unit_shape_def)
  qed
qed

lemma ravel_unit: "A < n \<Longrightarrow> ravel (unit_shape n A) (unit_index n A j) = j"
proof (induction n arbitrary: A)
  case 0
  then show ?case by simp
next
  case (Suc n)
  show ?case
  proof (cases A)
    case 0
    then show ?thesis by (simp add: unit_shape_def unit_index_def prod_list_ones ravel_ones)
  next
    case (Suc A')
    with Suc.prems have "A' < n" by simp
    from Suc.IH[OF this] show ?thesis unfolding Suc by (simp add: unit_shape_def unit_index_def)
  qed
qed

lemma in_bounds_unit:
  assumes "A < n" and "j < 2"
  shows "in_bounds (unit_shape n A) (unit_index n A j)"
  unfolding in_bounds_iff using assms
  by (auto simp: unit_shape_def unit_index_def nth_list_update)

lemma clip_unit:
  assumes "length y = n" and "A < n"
  shows "clip (unit_shape n A) y = unit_index n A (y ! A)"
proof (rule nth_equalityI)
  show "length (clip (unit_shape n A) y) = length (unit_index n A (y ! A))"
    using assms(1) by (simp add: length_clip)
next
  fix k assume "k < length (clip (unit_shape n A) y)"
  then have k: "k < length (unit_shape n A)" using assms(1) by (simp add: length_clip)
  have l: "length y = length (unit_shape n A)" using assms(1) by simp
  show "clip (unit_shape n A) y ! k = unit_index n A (y ! A) ! k"
    unfolding clip_nth[OF k l] using k assms(2)
    by (auto simp: unit_shape_def unit_index_def nth_list_update)
qed

lemma stochastic_table_shape:
  assumes "stochastic_table n t"
  shows "shape t = 2 # tl (shape t)" and "length (tl (shape t)) = n"
proof -
  from assms have l: "length (shape t) = Suc n" and h: "hd (shape t) = 2"
    by (simp_all add: stochastic_table_def)
  from l have "shape t \<noteq> []" by auto
  then show "shape t = 2 # tl (shape t)" using h by (cases "shape t") simp_all
  show "length (tl (shape t)) = n" using l by simp
qed

lemma row_stochastic_expanded:
  assumes "stochastic_table n t" and "A < n"
      and "reshape (rotate_first_to_last t)
             (butlast (shape (rotate_first_to_last t)) @ unit_shape n A) = Inr e"
  shows "row_stochastic n A e"
proof -
  let ?F = "tl (shape t)"
  let ?rot = "rotate_first_to_last t"
  note st = stochastic_table_shape[OF assms(1)]
  have hd2: "hd (shape t) = 2" using assms(1) by (simp add: stochastic_table_def)
  have pos: "\<forall>k<n. 0 < ?F ! k"
    and its: "\<And>x. in_bounds ?F x \<Longrightarrow> item t (0 # x) + item t (1 # x) = 1"
    using assms(1) by (simp_all add: stochastic_table_def)
  have srot: "shape ?rot = ?F @ [2]" by (simp add: hd2)
  note re = reshape_Inr[OF assms(3)]
  have se: "shape e = ?F @ unit_shape n A" using re(1) by (simp add: srot)
  have de: "data e = data ?rot" by (rule re(2))
  have wrot: "length (data ?rot) = prod_list (shape ?rot)"
    using well_shaped_rotate[of t] by (simp add: well_shaped_def)
  have "prod_list (shape e) = prod_list (shape ?rot)"
    unfolding re(1) by (rule re(3))
  then have we: "well_shaped e"
    unfolding well_shaped_def de wrot by simp
  have ev: "item e (x @ unit_index n A j) = item t (j # x)"
    if x: "in_bounds ?F x" and j: "j < 2" for x j
  proof -
    have lx: "length x = length ?F" by (rule in_bounds_length[OF x])
    have a: "ravel (shape e) (x @ unit_index n A j) = ravel ?F x * 2 + j"
      unfolding se ravel_append[OF lx] by (simp add: prod_unit_shape[OF assms(2)] ravel_unit[OF assms(2)])
    have b: "ravel (tl (shape t) @ [hd (shape t)]) (x @ [j]) = ravel ?F x * 2 + j"
      unfolding ravel_append[OF lx] by (simp add: hd2)
    have c: "in_bounds (tl (shape t) @ [hd (shape t)]) (x @ [j])"
      unfolding in_bounds_append[OF lx] using x j by (simp add: hd2)
    have "item e (x @ unit_index n A j) = item ?rot (x @ [j])"
      by (simp add: item_def a b de)
    also have "\<dots> = item t (j # x)"
      unfolding item_rotate[OF c] by simp
    finally show ?thesis .
  qed
  show ?thesis
    unfolding row_stochastic_def
  proof (intro conjI allI impI)
    show "well_shaped e" by (rule we)
    show "length (shape e) = n + n" using st(2) by (simp add: se)
    show "drop n (shape e) = unit_shape n A" using st(2) by (simp add: se)
  next
    fix k assume "k < n"
    then show "0 < shape e ! k" using pos st(2) by (simp add: se nth_append)
  next
    fix x assume "in_bounds (take n (shape e)) x"
    then have x: "in_bounds ?F x" using st(2) by (simp add: se)
    show "item e (x @ unit_index n A 0) + item e (x @ unit_index n A 1) = 1"
      using ev[OF x, of 0] ev[OF x, of 1] its[OF x] by simp
  qed
qed

lemma row_stochastic_marginalize_out:
  assumes "row_stochastic n A T" and "marginalize_out T nd = Inr r" and "node_index nd < n"
      and "A < n"
  shows "row_stochastic n A r"
proof -
  let ?i = "node_index nd"
  let ?U = "unit_shape n A"
  define F where "F = take n (shape T)"
  from assms(2) have r: "r = divide_scalar (sum_keepdims T ?i) (real (shape T ! ?i))"
    by (auto simp: marginalize_out_def Let_def split: if_splits)
  have w: "well_shaped T" and len: "length (shape T) = n + n" and dr: "drop n (shape T) = ?U"
    and pos: "\<forall>k<n. 0 < shape T ! k"
    and its: "\<And>x. in_bounds F x \<Longrightarrow>
                item T (x @ unit_index n A 0) + item T (x @ unit_index n A 1) = 1"
    using assms(1) by (simp_all add: row_stochastic_def F_def)
  have sT: "shape T = F @ ?U"
    unfolding F_def using dr append_take_drop_id[of n "shape T"] by simp
  have lF: "length F = n" unfolding F_def using len by simp
  have Fi: "F ! ?i = shape T ! ?i" unfolding F_def using assms(3) by simp
  have pi: "0 < shape T ! ?i" using pos assms(3) by simp
  have su: "(shape T)[?i := 1] = F[?i := 1] @ ?U"
    unfolding sT using assms(3) lF by (simp add: list_update_append1)
  have ev: "item r (x @ unit_index n A j)
              = sum_list (map (\<lambda>v. item T (x[?i := v] @ unit_index n A j)) [0..<shape T ! ?i])
                  / real (shape T ! ?i)"
    if x: "in_bounds (F[?i := 1]) x" and j: "j < 2" for x j
  proof -
    have lx: "length x = length (F[?i := 1])" by (rule in_bounds_length[OF x])
    have b: "in_bounds ((shape T)[?i := 1]) (x @ unit_index n A j)"
      unfolding su in_bounds_append[OF lx] using x in_bounds_unit[OF assms(4) j] by simp
    have b': "in_bounds (shape (sum_keepdims T ?i)) (x @ unit_index n A j)" using b by simp
    have u: "\<And>v. (x @ unit_index n A j)[?i := v] = x[?i := v] @ unit_index n A j"
      using lx lF assms(3) by (simp add: list_update_append1)
    show ?thesis
      unfolding r item_divide_scalar[OF well_shaped_sum_keepdims b'] item_sum_keepdims[OF b] u ..
  qed
  have tr: "take n (shape r) = F[?i := 1]"
    unfolding r using su lF by simp
  show ?thesis
    unfolding row_stochastic_def
  proof (intro conjI allI impI)
    show "well_shaped r" unfolding r by (simp add: well_shaped_divide_scalar)
    show "length (shape r) = n + n" unfolding r by (simp add: len)
    show "drop n (shape r) = ?U" unfolding r using su lF by simp
  next
    fix k assume "k < n"
    then show "0 < shape r ! k" unfolding r using pos len assms(3) by (simp add: nth_list_update)
  next
    fix x assume "in_bounds (take n (shape r)) x"
    then have x: "in_bounds (F[?i := 1]) x" unfolding tr .
    have ones: "map (\<lambda>v. item T (x[?i := v] @ unit_index n A 0)
                          + item T (x[?i := v] @ unit_index n A 1)) [0..<shape T ! ?i]
                  = map (\<lambda>v. 1) [0..<shape T ! ?i]"
    proof (rule map_cong[OF refl])
      fix v assume "v \<in> set [0..<shape T ! ?i]"
      then have v: "v < F ! ?i" using Fi by simp
      have "in_bounds F (x[?i := v])"
        by (rule in_bounds_restore[OF x _ v]) (simp add: lF assms(3))
      then show "item T (x[?i := v] @ unit_index n A 0)
                   + item T (x[?i := v] @ unit_index n A 1) = 1" by (rule its)
    qed
    have e0: "item r (x @ unit_index n A 0)
              = sum_list (map (\<lambda>v. item T (x[?i := v] @ unit_index n A 0)) [0..<shape T ! ?i])
                  / real (shape T ! ?i)" by (rule ev[OF x]) simp
    have e1: "item r (x @ unit_index n A 1)
              = sum_list (map (\<lambda>v. item T (x[?i := v] @ unit_index n A 1)) [0..<shape T ! ?i])
                  / real (shape T ! ?i)" by (rule ev[OF x]) simp
    have "item r (x @ unit_index n A 0) + item r (x @ unit_index n A 1)
            = sum_list (map (\<lambda>v. item T (x[?i := v] @ unit_index n A 0)
                                   + item T (x[?i := v] @ unit_index n A 1)) [0..<shape T ! ?i])
                / real (shape T ! ?i)"
      unfolding e0 e1 by (simp add: sum_list_addf add_divide_distrib)
    also have "\<dots> = 1" unfolding ones using pi by (simp add: sum_list_triv)
    finally show "item r (x @ unit_index n A 0) + item r (x @ unit_index n A 1) = 1" .
  qed
qed

lemma length_axes_shape [simp]: "length (axes_shape n Q) = n"
  by (simp add: axes_shape_def)

lemma axes_shape_nth: "k < n \<Longrightarrow> axes_shape n Q ! k = (if k \<in> Q then 2 else 1)"
  by (simp add: axes_shape_def)

lemma axes_shape_insert:
  assumes "A < n"
  shows "axes_shape n (insert A Q) = (axes_shape n Q)[A := 2]"
  by (rule nth_equalityI) (use assms in \<open>auto simp: axes_shape_nth nth_list_update\<close>)

lemma axes_shape_insert_back:
  assumes "A < n" and "A \<notin> Q"
  shows "(axes_shape n (insert A Q))[A := 1] = axes_shape n Q"
  by (rule nth_equalityI) (use assms in \<open>auto simp: axes_shape_nth nth_list_update\<close>)

lemma axes_shape_empty: "axes_shape n {} = replicate n (Suc 0)"
  by (rule nth_equalityI) (simp_all add: axes_shape_nth)

lemma in_bounds_axes_mono:
  assumes "Q \<subseteq> P" and "in_bounds (axes_shape n Q) y"
  shows "in_bounds (axes_shape n P) y"
  using assms unfolding in_bounds_iff
  by (auto simp: axes_shape_nth split: if_splits)

lemma map2_max_axes_unit:
  assumes "A < n" and "A \<in> P"
  shows "map2 max (axes_shape n P) (unit_shape n A) = axes_shape n P"
  by (rule nth_equalityI)
     (use assms in \<open>auto simp: axes_shape_nth unit_shape_def nth_list_update\<close>)

lemma in_bounds_set:
  assumes "in_bounds s y" and "j < s ! k"
  shows "in_bounds s (y[k := j])"
proof -
  have "in_bounds (s[k := s ! k]) (y[k := j])" by (rule in_bounds_update[OF assms])
  then show ?thesis by simp
qed

lemma shape_np_ones [simp]: "shape (np_ones s) = s"
  by (simp add: np_ones_def)

lemma acc_inv_initial: "acc_inv n P {} (np_ones (replicate n 1 @ axes_shape n P))"
proof -
  let ?S = "axes_shape n P"
  let ?a = "np_ones (replicate n 1 @ ?S)"
  have sh: "shape ?a = replicate n 1 @ ?S" by (simp add: np_ones_def)
  have one: "item ?a (x @ y) = 1"
    if "in_bounds (replicate n 1) x" and "in_bounds ?S y" for x y
  proof -
    have l: "length x = length (replicate n (1::nat))" using in_bounds_length[OF that(1)] .
    have "in_bounds (replicate n 1 @ ?S) (x @ y)"
      unfolding in_bounds_append[OF l] using that by simp
    then show ?thesis unfolding np_ones_def by (rule item_mk_array)
  qed
  show ?thesis
    unfolding acc_inv_def
  proof (intro conjI allI impI)
    show "well_shaped ?a" by (simp add: np_ones_def)
    show "length (shape ?a) = n + n" by simp
    show "drop n (shape ?a) = ?S" by simp
    show "{} \<subseteq> P" by simp
  next
    fix k assume "k < n"
    then show "0 < shape ?a ! k" by (simp add: nth_append)
  next
    fix x y k and j :: nat
    assume h: "in_bounds (take n (shape ?a)) x \<and> in_bounds ?S y \<and>
               k \<in> P \<and> k \<notin> {} \<and> k < n \<and> j < 2"
    then have x: "in_bounds (replicate n 1) x" and y: "in_bounds ?S y"
      and k: "k \<in> P" "k < n" and j: "j < 2" by simp_all
    have "in_bounds ?S (y[k := j])"
      by (rule in_bounds_set[OF y]) (simp add: axes_shape_nth k j)
    then show "item ?a (x @ y[k := j]) = item ?a (x @ y)"
      using one[OF x] y by simp
  next
    fix x assume "in_bounds (take n (shape ?a)) x"
    then have x: "in_bounds (replicate n 1) x" by simp
    have eq: "map (\<lambda>y. item ?a (x @ y)) (indices (axes_shape n {}))
            = map (\<lambda>y. 1) (indices (axes_shape n {}))"
    proof (rule map_cong[OF refl])
      fix y assume "y \<in> set (indices (axes_shape n {}))"
      then have "in_bounds (axes_shape n {}) y" by (simp add: set_indices)
      then have "in_bounds ?S y" by (rule in_bounds_axes_mono[rotated]) simp
      then show "item ?a (x @ y) = 1" by (rule one[OF x])
    qed
    have "sum_list (map (\<lambda>y. (1::real)) (indices (axes_shape n {}))) = 1"
      by (simp add: sum_list_triv length_indices axes_shape_empty prod_list_ones)
    then show "sum_list (map (\<lambda>y. item ?a (x @ y)) (indices (axes_shape n {}))) = 1"
      unfolding eq .
  qed
qed

lemma acc_inv_multiply:
  assumes "acc_inv n P Q acc" and "row_stochastic n A T"
      and "A < n" and "A \<in> P" and "A \<notin> Q"
      and "multiply acc T = Inr r"
  shows "acc_inv n P (insert A Q) r"
proof -
  let ?S = "axes_shape n P"
  let ?U = "unit_shape n A"
  define Fa where "Fa = take n (shape acc)"
  define Ft where "Ft = take n (shape T)"
  define F' where "F' = map2 max Fa Ft"
  have wa: "well_shaped acc" and la: "length (shape acc) = n + n"
    and da: "drop n (shape acc) = ?S" and pa: "\<forall>k<n. 0 < shape acc ! k" and QP: "Q \<subseteq> P"
    and ind: "\<And>x y k j. in_bounds Fa x \<Longrightarrow> in_bounds ?S y \<Longrightarrow> k \<in> P \<Longrightarrow> k \<notin> Q \<Longrightarrow>
                 k < n \<Longrightarrow> j < 2 \<Longrightarrow> item acc (x @ y[k := j]) = item acc (x @ y)"
    and sm: "\<And>x. in_bounds Fa x \<Longrightarrow>
                 sum_list (map (\<lambda>y. item acc (x @ y)) (indices (axes_shape n Q))) = 1"
    using assms(1) unfolding acc_inv_def Fa_def by blast+
  have wt: "well_shaped T" and lt: "length (shape T) = n + n"
    and dt: "drop n (shape T) = ?U" and pt: "\<forall>k<n. 0 < shape T ! k"
    and rs: "\<And>x. in_bounds Ft x \<Longrightarrow>
                 item T (x @ unit_index n A 0) + item T (x @ unit_index n A 1) = 1"
    using assms(2) unfolding row_stochastic_def Ft_def by blast+
  have sa: "shape acc = Fa @ ?S"
    unfolding Fa_def using da append_take_drop_id[of n "shape acc"] by simp
  have sT: "shape T = Ft @ ?U"
    unfolding Ft_def using dt append_take_drop_id[of n "shape T"] by simp
  have lFa: "length Fa = n" unfolding Fa_def using la by simp
  have lFt: "length Ft = n" unfolding Ft_def using lt by simp
  have lF': "length F' = n" unfolding F'_def using lFa lFt by simp
  have pFa: "\<forall>k<length Fa. 0 < Fa ! k" unfolding Fa_def using pa la by simp
  have pFt: "\<forall>k<length Ft. 0 < Ft ! k" unfolding Ft_def using pt lt by simp
  have rank: "length (shape acc) = length (shape T)" using la lt by simp
  note m = multiply_Inr[OF assms(6)]
  have "map2 max (Fa @ ?S) (Ft @ ?U) = F' @ ?S"
    unfolding F'_def using lFa lFt map2_max_axes_unit[OF assms(3,4)] by simp
  then have "map2 max (shape acc) (shape T) = F' @ ?S"
    unfolding sa sT .
  then have bs: "broadcast_shape (shape acc) (shape T) = F' @ ?S"
    using broadcast_same_rank(1)[OF rank] by simp
  have bc: "list_all2 (\<lambda>a b. a = b \<or> a = 1 \<or> b = 1) Fa Ft"
  proof -
    have "list_all2 (\<lambda>a b. a = b \<or> a = 1 \<or> b = 1) (shape acc) (shape T)"
      using m(2) broadcast_same_rank(2)[OF rank] by simp
    then have "list_all2 (\<lambda>a b. a = b \<or> a = 1 \<or> b = 1) (Fa @ ?S) (Ft @ ?U)"
      unfolding sa sT .
    then show ?thesis using lFa lFt by (simp add: list_all2_append)
  qed
  have r: "r = mk_array (F' @ ?S) (\<lambda>idx. bview acc idx * bview T idx)"
    using m(1) bs by simp
  have shr: "shape r = F' @ ?S" unfolding r by simp
  have val: "item r (x @ y) = item acc (clip Fa x @ y) * item T (clip Ft x @ unit_index n A (y ! A))
             \<and> in_bounds Fa (clip Fa x) \<and> in_bounds Ft (clip Ft x)"
    if x: "in_bounds F' x" and y: "in_bounds ?S y" for x y
  proof -
    have lx: "length x = n" using in_bounds_length[OF x] lF' by simp
    have ly: "length y = n" using in_bounds_length[OF y] by simp
    have b: "in_bounds (F' @ ?S) (x @ y)"
      using x y lx lF' by (simp add: in_bounds_append)
    have xm: "in_bounds (map2 max Fa Ft) x" using x unfolding F'_def .
    have ca: "in_bounds Fa (clip Fa x)"
      by (rule clip_in_bounds_left[OF _ pFa bc xm]) (simp add: lFa lFt)
    have ct: "in_bounds Ft (clip Ft x)"
      by (rule clip_in_bounds_right[OF _ pFt bc xm]) (simp add: lFa lFt)
    have va: "bview acc (x @ y) = item acc (clip Fa x @ y)"
    proof -
      have "bview acc (x @ y) = item acc (clip (shape acc) (x @ y))"
        by (rule bview_same_rank) (simp add: la lx ly)
      also have "clip (shape acc) (x @ y) = clip Fa x @ clip ?S y"
        unfolding sa by (rule clip_append) (simp add: lx lFa)
      also have "clip ?S y = y" by (rule clip_in_bounds_id[OF y])
      finally show ?thesis .
    qed
    have vt: "bview T (x @ y) = item T (clip Ft x @ unit_index n A (y ! A))"
    proof -
      have "bview T (x @ y) = item T (clip (shape T) (x @ y))"
        by (rule bview_same_rank) (simp add: lt lx ly)
      also have "clip (shape T) (x @ y) = clip Ft x @ clip ?U y"
        unfolding sT by (rule clip_append) (simp add: lx lFt)
      also have "clip ?U y = unit_index n A (y ! A)" by (rule clip_unit[OF ly assms(3)])
      finally show ?thesis .
    qed
    show ?thesis
      unfolding r item_mk_array[OF b] va vt using ca ct by simp
  qed
  show ?thesis
    unfolding acc_inv_def
  proof (intro conjI allI impI)
    show "well_shaped r" unfolding r by simp
    show "length (shape r) = n + n" by (simp add: shr lF')
    show "drop n (shape r) = ?S" by (simp add: shr lF')
    show "insert A Q \<subseteq> P" using QP assms(4) by simp
  next
    fix k assume k: "k < n"
    have "shape r ! k = max (Fa ! k) (Ft ! k)"
      using k lF' lFa lFt by (simp add: shr nth_append F'_def)
    then show "0 < shape r ! k" using pFa k lFa by (simp add: less_max_iff_disj)
  next
    fix x y k and j :: nat
    assume h: "in_bounds (take n (shape r)) x \<and> in_bounds ?S y \<and>
               k \<in> P \<and> k \<notin> insert A Q \<and> k < n \<and> j < 2"
    then have x: "in_bounds F' x" and y: "in_bounds ?S y" and k: "k \<in> P" "k \<notin> Q" "k \<noteq> A" "k < n"
      and j: "j < 2" by (simp_all add: shr lF')
    have y': "in_bounds ?S (y[k := j])"
      by (rule in_bounds_set[OF y]) (simp add: axes_shape_nth k j)
    note v1 = val[OF x y] and v2 = val[OF x y']
    have "item acc (clip Fa x @ y[k := j]) = item acc (clip Fa x @ y)"
      by (rule ind[OF _ y k(1,2,4) j]) (simp add: v1)
    then show "item r (x @ y[k := j]) = item r (x @ y)"
      using v1 v2 k(3) by simp
  next
    fix x assume "in_bounds (take n (shape r)) x"
    then have x: "in_bounds F' x" by (simp add: shr lF')
    let ?SQ = "axes_shape n Q"
    let ?SQ' = "axes_shape n (insert A Q)"
    have A': "A < length ?SQ'" using assms(3) by simp
    have two: "[0..<2] = [0, Suc 0]" by (simp add: upt_rec)
    have inner: "sum_list (map (\<lambda>j. item r (x @ y0[A := j])) [0..<?SQ' ! A])
                   = item acc (clip Fa x @ y0)"
      if y0: "y0 \<in> set (indices ?SQ)" for y0
    proof -
      have b0: "in_bounds ?SQ y0" using y0 by (simp add: set_indices)
      have bS: "in_bounds ?S y0" by (rule in_bounds_axes_mono[OF QP b0])
      have ly0: "length y0 = n" using in_bounds_length[OF bS] by simp
      have b1: "in_bounds ?S (y0[A := j])" if "j < 2" for j
        by (rule in_bounds_set[OF bS]) (simp add: axes_shape_nth assms(3,4) that)
      have nthA: "\<And>j. y0[A := j] ! A = j" using ly0 assms(3) by simp
      have i0: "item acc (clip Fa x @ y0[A := 0]) = item acc (clip Fa x @ y0)"
        by (rule ind[OF _ bS assms(4,5,3)]) (simp_all add: val[OF x bS])
      have i1: "item acc (clip Fa x @ y0[A := 1]) = item acc (clip Fa x @ y0)"
        by (rule ind[OF _ bS assms(4,5,3)]) (simp_all add: val[OF x bS])
      have v0: "item r (x @ y0[A := 0])
                  = item acc (clip Fa x @ y0) * item T (clip Ft x @ unit_index n A 0)"
        using val[OF x b1[of 0]] nthA[of 0] i0 by simp
      have v1: "item r (x @ y0[A := 1])
                  = item acc (clip Fa x @ y0) * item T (clip Ft x @ unit_index n A 1)"
        using val[OF x b1[of 1]] nthA[of 1] i1 by simp
      have ct: "in_bounds Ft (clip Ft x)" using val[OF x bS] by simp
      have "sum_list (map (\<lambda>j. item r (x @ y0[A := j])) [0..<?SQ' ! A])
              = item r (x @ y0[A := 0]) + item r (x @ y0[A := 1])"
        using assms(3) by (simp add: axes_shape_nth two)
      also have "\<dots> = item acc (clip Fa x @ y0)
                        * (item T (clip Ft x @ unit_index n A 0)
                           + item T (clip Ft x @ unit_index n A 1))"
        unfolding v0 v1 by (simp add: algebra_simps)
      also have "\<dots> = item acc (clip Fa x @ y0)" unfolding rs[OF ct] by simp
      finally show ?thesis .
    qed
    have ca: "in_bounds Fa (clip Fa x)"
    proof -
      have "in_bounds ?S (replicate n 0)"
        unfolding in_bounds_iff by (simp add: axes_shape_nth)
      from val[OF x this] show ?thesis by simp
    qed
    have "sum_list (map (\<lambda>y. item r (x @ y)) (indices ?SQ'))
            = sum_list (map (\<lambda>y0. sum_list (map (\<lambda>j. item r (x @ y0[A := j])) [0..<?SQ' ! A]))
                          (indices (?SQ'[A := 1])))"
      by (rule sum_indices_axis[OF A'])
    also have "?SQ'[A := 1] = ?SQ" by (rule axes_shape_insert_back[OF assms(3,5)])
    also have "map (\<lambda>y0. sum_list (map (\<lambda>j. item r (x @ y0[A := j])) [0..<?SQ' ! A])) (indices ?SQ)
                 = map (\<lambda>y0. item acc (clip Fa x @ y0)) (indices ?SQ)"
      by (rule map_cong[OF refl]) (rule inner)
    also have "sum_list (map (\<lambda>y0. item acc (clip Fa x @ y0)) (indices ?SQ)) = 1"
      by (rule sm[OF ca])
    finally show "sum_list (map (\<lambda>y. item r (x @ y)) (indices ?SQ')) = 1" .
  qed
qed

lemma network_nodes_index_bound:
  assumes "network_nodes net = Inr nds" and "m \<in> set nds"
  shows "node_index m < network_size net"
proof -
  from assms(2) obtain i where i: "i < length nds" and m: "m = nds ! i"
    by (auto simp: in_set_conv_nth)
  from network_nodes_nth[OF assms(1) i] network_nodes_length[OF assms(1)] i m
  show ?thesis by simp
qed

lemma inputs_index_bound:
  assumes "inputs nd = Inr ins" and "m \<in> set ins"
  shows "node_index m < network_size (node_network nd)"
proof -
  from assms(1) obtain nds where nds: "network_nodes (node_network nd) = Inr nds"
    and ins: "ins = filter (\<lambda>m. node_index m \<in> set (node_input_indices nd)) nds"
    by (auto simp: inputs_def split: sum.splits)
  from assms(2) ins have "m \<in> set nds" by simp
  then show ?thesis by (rule network_nodes_index_bound[OF nds])
qed

lemma set_node_inter: "set (node_inter xs ys) \<subseteq> set xs"
  by (auto simp: node_inter_def)

lemma inputs_union_index_bound:
  assumes "inputs_union ps = Inr xs" and "\<forall>p\<in>set ps. node_network p = net" and "m \<in> set xs"
  shows "node_index m < network_size net"
  using assms
proof (induction ps arbitrary: xs)
  case Nil
  then show ?case by simp
next
  case (Cons p ps)
  from Cons.prems(1) obtain ins others where i: "inputs p = Inr ins"
    and o: "inputs_union ps = Inr others" and xs: "xs = dedup_nodes (ins @ others)"
    by (auto split: sum.splits)
  from Cons.prems(3) xs set_dedup_nodes[of "ins @ others"] have "m \<in> set ins \<or> m \<in> set others"
    by auto
  then show ?case
  proof
    assume "m \<in> set ins"
    from inputs_index_bound[OF i this] Cons.prems(2) show ?thesis by simp
  next
    assume "m \<in> set others"
    with Cons.IH[OF o] Cons.prems(2) show ?thesis by simp
  qed
qed

lemma purview_shape_axes:
  assumes "network_nodes net = Inr nds" and "\<forall>p\<in>set purview. node_network p = net"
  shows "purview_shape nds purview = axes_shape (network_size net) (node_index ` set purview)"
proof (rule nth_equalityI)
  show "length (purview_shape nds purview)
          = length (axes_shape (network_size net) (node_index ` set purview))"
    using network_nodes_length[OF assms(1)] by (simp add: purview_shape_def)
next
  fix k assume "k < length (purview_shape nds purview)"
  then have k: "k < length nds" by (simp add: purview_shape_def)
  then have kn: "k < network_size net" using network_nodes_length[OF assms(1)] by simp
  note nk = network_nodes_nth[OF assms(1) k]
  have "node_member (nds ! k) purview \<longleftrightarrow> k \<in> node_index ` set purview"
    using nk assms(2) by (auto simp: node_member_def list_ex_iff node_eq_def)
  then show "purview_shape nds purview ! k
               = axes_shape (network_size net) (node_index ` set purview) ! k"
    using k kn by (simp add: purview_shape_def axes_shape_nth)
qed

lemma acc_inv_effect_step:
  assumes "well_formed_network net" and "subsystem_network sub = net"
      and "constructed net p"
      and "acc_inv (network_size net) P Q acc"
      and "node_index p \<in> P" and "node_index p \<notin> Q"
      and "effect_step sub mechanism acc p = Inr r"
  shows "acc_inv (network_size net) P (insert (node_index p) Q) r"
proof -
  let ?n = "network_size net"
  let ?A = "node_index p"
  note c = constructed_table[OF assms(1,3)]
  from assms(7) obtain ins expanded ms marginalized where
    i: "inputs p = Inr ins" and
    e: "reshape (rotate_first_to_last (node_tpm p))
          (butlast (shape (rotate_first_to_last (node_tpm p))) @ unit_shape ?n ?A) = Inr expanded" and
    ms: "set ms \<subseteq> set ins" and
    f: "fold_err marginalize_out ms expanded = Inr marginalized" and
    m: "multiply acc marginalized = Inr r"
    using set_node_inter set_dedup_nodes
    by (auto simp: effect_step_def Let_def assms(2) unit_shape_def split: sum.splits if_splits)
       blast
  have re: "row_stochastic ?n ?A expanded"
    by (rule row_stochastic_expanded[OF c(1,2) e])
  have rm: "row_stochastic ?n ?A marginalized"
  proof (rule fold_err_invariant[where P = "row_stochastic ?n ?A", OF _ re f])
    fix a x r'
    assume a: "row_stochastic ?n ?A a" and x: "x \<in> set ms" and s: "marginalize_out a x = Inr r'"
    from x ms have "x \<in> set ins" by blast
    from inputs_index_bound[OF i this] c(3) have "node_index x < ?n" by simp
    then show "row_stochastic ?n ?A r'"
      using c(2) by (rule row_stochastic_marginalize_out[OF a s])
  qed
  show ?thesis
    by (rule acc_inv_multiply[OF assms(4) rm c(2) assms(5,6) m])
qed

lemma acc_inv_fold:
  assumes "well_formed_network net" and "subsystem_network sub = net"
      and "\<forall>p\<in>set ps. constructed net p"
      and "distinct (map node_index ps)"
      and "node_index ` set ps \<subseteq> P" and "node_index ` set ps \<inter> Q = {}"
      and "acc_inv (network_size net) P Q acc"
      and "fold_err (effect_step sub mechanism) ps acc = Inr r"
  shows "acc_inv (network_size net) P (Q \<union> node_index ` set ps) r"
  using assms(3-8)
proof (induction ps arbitrary: Q acc)
  case Nil
  then show ?case by simp
next
  case (Cons p ps)
  from Cons.prems(6) obtain acc' where s: "effect_step sub mechanism acc p = Inr acc'"
    and rest: "fold_err (effect_step sub mechanism) ps acc' = Inr r"
    by (auto split: sum.splits)
  have cp: "constructed net p" using Cons.prems(1) by simp
  have pP: "node_index p \<in> P" using Cons.prems(3) by simp
  have pQ: "node_index p \<notin> Q" using Cons.prems(4) by auto
  have a': "acc_inv (network_size net) P (insert (node_index p) Q) acc'"
    by (rule acc_inv_effect_step[OF assms(1,2) cp Cons.prems(5) pP pQ s])
  have d: "node_index ` set ps \<inter> insert (node_index p) Q = {}"
    using Cons.prems(2,4) by auto
  have "acc_inv (network_size net) P (insert (node_index p) Q \<union> node_index ` set ps) r"
    by (rule Cons.IH[OF _ _ _ d a' rest]) (use Cons.prems in auto)
  then show ?case by (simp add: Un_commute insert_commute)
qed

lemma distinct_dedup_nodes:
  assumes "\<forall>x\<in>set xs. node_network x = net"
  shows "distinct (map node_index (dedup_nodes xs))"
  using assms
proof (induction xs rule: dedup_nodes.induct)
  case 1
  then show ?case by simp
next
  case (2 x xs)
  have IH: "distinct (map node_index (dedup_nodes (filter (\<lambda>y. \<not> node_eq x y) xs)))"
    by (rule 2(1)) (use 2(2) in auto)
  have "node_index x \<notin> node_index ` set (dedup_nodes (filter (\<lambda>y. \<not> node_eq x y) xs))"
  proof
    assume "node_index x \<in> node_index ` set (dedup_nodes (filter (\<lambda>y. \<not> node_eq x y) xs))"
    then obtain y where y: "y \<in> set (dedup_nodes (filter (\<lambda>y. \<not> node_eq x y) xs))"
      and e: "node_index x = node_index y" by auto
    from y set_dedup_nodes have "y \<in> set (filter (\<lambda>y. \<not> node_eq x y) xs)" by blast
    then have "y \<in> set xs" and "\<not> node_eq x y" by simp_all
    with e 2(2) show False by (simp add: node_eq_def)
  qed
  with IH show ?case by simp
qed

lemma distinct_map_insort_key:
  "distinct (map f (insort_key f x xs)) \<longleftrightarrow> f x \<notin> f ` set xs \<and> distinct (map f xs)"
  by (induction xs) (auto simp: set_insort_key)

lemma distinct_map_sort_key:
  "distinct (map f (sort_key f xs)) \<longleftrightarrow> distinct (map f xs)"
  by (induction xs) (simp_all add: distinct_map_insort_key)

lemma fin_inv_condition_on:
  assumes "fin_inv n S a" and "condition_on state a nd = Inr r" and "node_index nd < n"
  shows "fin_inv n S r"
proof -
  let ?i = "node_index nd"
  define F where "F = take n (shape a)"
  from assms(2) have v: "state ! ?i < shape a ! ?i"
    and r: "r = take_keepdims a ?i (state ! ?i)"
    by (auto simp: condition_on_def Let_def split: if_splits)
  have len: "length (shape a) = n + n" and dr: "drop n (shape a) = S"
    and sm: "\<And>x. in_bounds F x \<Longrightarrow> sum_list (map (\<lambda>y. item a (x @ y)) (indices S)) = 1"
    using assms(1) by (simp_all add: fin_inv_def F_def)
  have sa: "shape a = F @ S"
    unfolding F_def using dr append_take_drop_id[of n "shape a"] by simp
  have lF: "length F = n" unfolding F_def using len by simp
  have Fi: "F ! ?i = shape a ! ?i" unfolding F_def using assms(3) by simp
  have su: "(shape a)[?i := 1] = F[?i := 1] @ S"
    unfolding sa using assms(3) lF by (simp add: list_update_append1)
  have tr: "take n (shape r) = F[?i := 1]" unfolding r using su lF by simp
  show ?thesis
    unfolding fin_inv_def
  proof (intro conjI allI impI)
    show "well_shaped r" unfolding r by simp
    show "length (shape r) = n + n" unfolding r by (simp add: len)
    show "drop n (shape r) = S" unfolding r using su lF by simp
  next
    fix x assume "in_bounds (take n (shape r)) x"
    then have x: "in_bounds (F[?i := 1]) x" unfolding tr .
    have lx: "length x = length (F[?i := 1])" by (rule in_bounds_length[OF x])
    have x': "in_bounds F (x[?i := state ! ?i])"
      by (rule in_bounds_restore[OF x]) (simp_all add: lF assms(3) Fi v)
    have eq: "map (\<lambda>y. item r (x @ y)) (indices S)
            = map (\<lambda>y. item a (x[?i := state ! ?i] @ y)) (indices S)"
    proof (rule map_cong[OF refl])
      fix y assume "y \<in> set (indices S)"
      then have y: "in_bounds S y" by (simp add: set_indices)
      have b: "in_bounds ((shape a)[?i := 1]) (x @ y)"
        unfolding su in_bounds_append[OF lx] using x y by simp
      have u: "(x @ y)[?i := state ! ?i] = x[?i := state ! ?i] @ y"
        using lx lF assms(3) by (simp add: list_update_append1)
      show "item r (x @ y) = item a (x[?i := state ! ?i] @ y)"
        unfolding r item_take_keepdims[OF b] u ..
    qed
    show "sum_list (map (\<lambda>y. item r (x @ y)) (indices S)) = 1"
      unfolding eq by (rule sm[OF x'])
  qed
qed

lemma prod_list_pos:
  fixes s :: "nat list"
  assumes "\<forall>k<length s. 0 < s ! k"
  shows "0 < prod_list s"
  using assms
proof (induction s)
  case Nil
  then show ?case by simp
next
  case (Cons a s)
  have "0 < a" using Cons.prems by (auto dest: spec[of _ 0])
  moreover have "0 < prod_list s"
  proof (rule Cons.IH, intro allI impI)
    fix k assume "k < length s"
    then show "0 < s ! k" using Cons.prems by (auto dest: spec[of _ "Suc k"])
  qed
  ultimately show ?case by simp
qed

lemma fin_inv_reshape:
  assumes "fin_inv n S a" and "length S = n" and "\<forall>k<length S. 0 < S ! k"
      and "reshape a (take n (drop n (shape a))) = Inr r"
  shows "np_sum r = 1" and "shape r = S"
proof -
  define F where "F = take n (shape a)"
  have w: "well_shaped a" and len: "length (shape a) = n + n" and dr: "drop n (shape a) = S"
    and sm: "\<And>x. in_bounds F x \<Longrightarrow> sum_list (map (\<lambda>y. item a (x @ y)) (indices S)) = 1"
    using assms(1) by (simp_all add: fin_inv_def F_def)
  have sa: "shape a = F @ S"
    unfolding F_def using dr append_take_drop_id[of n "shape a"] by simp
  note re = reshape_Inr[OF assms(4)]
  have tS: "take n (drop n (shape a)) = S" using dr assms(2) by simp
  show "shape r = S" using re(1) tS by simp
  have "prod_list S = prod_list (shape a)"
    using re(3) unfolding tS .
  also have "\<dots> = prod_list F * prod_list S"
    by (subst sa) simp
  finally have "prod_list S = prod_list F * prod_list S" .
  moreover have "0 < prod_list S" by (rule prod_list_pos[OF assms(3)])
  ultimately have pF: "prod_list F = 1" by simp
  have "np_sum r = np_sum a" by (simp add: np_sum_def re(2))
  also have "\<dots> = sum_list (map (item a) (indices (F @ S)))"
    using np_sum_items[OF w] sa by simp
  also have "\<dots> = sum_list (map (\<lambda>x. sum_list (map (\<lambda>y. item a (x @ y)) (indices S))) (indices F))"
    by (rule sum_indices_append)
  also have "map (\<lambda>x. sum_list (map (\<lambda>y. item a (x @ y)) (indices S))) (indices F)
               = map (\<lambda>x. 1) (indices F)"
    by (rule map_cong[OF refl]) (simp add: set_indices sm)
  also have "sum_list (map (\<lambda>x. (1::real)) (indices F)) = 1"
    by (simp add: sum_list_triv length_indices pF)
  finally show "np_sum r = 1" .
qed

lemma acc_inv_fin:
  assumes "acc_inv n P P acc"
  shows "fin_inv n (axes_shape n P) acc"
  using assms unfolding acc_inv_def fin_inv_def by blast

lemma constructed_validated:
  assumes "list_all (constructed net) xs"
  shows "\<forall>p\<in>set (sort_key node_index (dedup_nodes xs)). constructed net p"
  using assms set_dedup_nodes[of xs] by (auto simp: list_all_iff)

lemma effect_repertoire_sums:
  assumes "well_formed_network (subsystem_network sub)"
      and "list_all (constructed (subsystem_network sub)) purview"
      and "effect_repertoire sub mechanism purview = Inr r"
      and "purview \<noteq> []"
  shows "np_sum r = 1"
proof -
  let ?net = "subsystem_network sub"
  let ?n = "network_size ?net"
  let ?pv = "sort_key node_index (dedup_nodes purview)"
  let ?P = "node_index ` set ?pv"
  have pvne: "?pv \<noteq> []"
    using validate_nodelist_set(2)[of purview] assms(4) by (simp add: validate_nodelist_def)
  from assms(3) pvne obtain nds acc itp bs conditioned where
    nds: "network_nodes ?net = Inr nds" and
    f: "fold_err (effect_step sub (sort_key node_index (dedup_nodes mechanism))) ?pv
          (np_ones (replicate ?n 1 @ purview_shape nds ?pv)) = Inr acc" and
    itp: "inputs_union ?pv = Inr itp" and
    bs: "set bs \<subseteq> set itp" and
    c: "fold_err (condition_on (subsystem_current_state sub)) bs acc = Inr conditioned" and
    re: "reshape conditioned (take ?n (drop ?n (shape conditioned))) = Inr r"
    using set_node_inter
    by (auto simp: effect_repertoire_def validate_nodelist_def Let_def
             split: sum.splits if_splits) blast
  have cons: "\<forall>p\<in>set ?pv. constructed ?net p" by (rule constructed_validated[OF assms(2)])
  have nets: "\<forall>p\<in>set ?pv. node_network p = ?net"
    using cons constructed_table(3)[OF assms(1)] by blast
  have nets0: "\<forall>p\<in>set purview. node_network p = ?net"
    using assms(2) constructed_table(3)[OF assms(1)] by (auto simp: list_all_iff)
  have ps: "purview_shape nds ?pv = axes_shape ?n ?P"
    by (rule purview_shape_axes[OF nds nets])
  have d: "distinct (map node_index ?pv)"
    unfolding distinct_map_sort_key by (rule distinct_dedup_nodes[OF nets0])
  have a0: "acc_inv ?n ?P {} (np_ones (replicate ?n 1 @ purview_shape nds ?pv))"
    unfolding ps by (rule acc_inv_initial)
  have "acc_inv ?n ?P ({} \<union> ?P) acc"
    by (rule acc_inv_fold[OF assms(1) refl cons d _ _ a0 f]) simp_all
  then have "acc_inv ?n ?P ?P acc" by simp
  then have fa: "fin_inv ?n (axes_shape ?n ?P) acc" by (rule acc_inv_fin)
  have fc: "fin_inv ?n (axes_shape ?n ?P) conditioned"
  proof (rule fold_err_invariant[where P = "fin_inv ?n (axes_shape ?n ?P)", OF _ fa c])
    fix a x r'
    assume a: "fin_inv ?n (axes_shape ?n ?P) a" and x: "x \<in> set bs"
      and s: "condition_on (subsystem_current_state sub) a x = Inr r'"
    from x bs have "x \<in> set itp" by blast
    then have "node_index x < ?n" by (rule inputs_union_index_bound[OF itp nets])
    then show "fin_inv ?n (axes_shape ?n ?P) r'" by (rule fin_inv_condition_on[OF a s])
  qed
  show ?thesis
    by (rule fin_inv_reshape(1)[OF fc _ _ re]) (simp_all add: axes_shape_nth)
qed

lemma max_entropy_distribution_sum:
  assumes "max_entropy_distribution purview net = Inr r"
  shows "np_sum r = 1"
proof -
  from assms obtain nds where
    r: "r = mk_array (purview_shape nds purview)
              (\<lambda>idx. 1 / real (prod_list (purview_shape nds purview)))"
    by (auto simp: max_entropy_distribution_def split: sum.splits)
  have p: "0 < prod_list (purview_shape nds purview)"
    by (rule prod_list_pos) (simp add: purview_shape_def)
  show ?thesis
    unfolding r np_sum_mk_array using p by (simp add: sum_list_triv length_indices)
qed

lemma max_entropy_distribution_empty:
  assumes "max_entropy_distribution [] net = Inr r"
  shows "data r = [1]"
proof -
  from assms obtain nds where
    r: "r = mk_array (purview_shape nds []) (\<lambda>idx. 1 / real (prod_list (purview_shape nds [])))"
    by (auto simp: max_entropy_distribution_def split: sum.splits)
  have s: "purview_shape nds [] = replicate (length nds) (Suc 0)"
    by (simp add: purview_shape_def node_member_def map_replicate_const)
  have i: "indices (replicate m (Suc 0)) = [replicate m 0]" for m
    by (induction m) simp_all
  show ?thesis unfolding r s by (simp add: data_mk_array i prod_list_ones)
qed

lemma cause_repertoire_empty_mechanism:
  "cause_repertoire sub [] purview
     = max_entropy_distribution (sort_key node_index (dedup_nodes purview)) (subsystem_network sub)"
  by (simp add: cause_repertoire_def validate_nodelist_def)

lemma cause_repertoire_empty_purview:
  assumes "mechanism \<noteq> []"
  shows "cause_repertoire sub mechanism [] = Inr np_array_1"
proof -
  have "sort_key node_index (dedup_nodes mechanism) \<noteq> []"
    using validate_nodelist_set(2)[of mechanism] assms by (simp add: validate_nodelist_def)
  then show ?thesis by (simp add: cause_repertoire_def validate_nodelist_def)
qed

lemma effect_repertoire_empty_purview:
  "effect_repertoire sub mechanism [] = Inr np_array_1"
  by (simp add: effect_repertoire_def validate_nodelist_def)

lemma cause_repertoire_from_cjd:
  assumes "mechanism \<noteq> []" and "purview \<noteq> []"
      and "cause_cjd sub (sort_key node_index (dedup_nodes mechanism))
             (sort_key node_index (dedup_nodes purview)) = Inr cjd"
  shows "cause_repertoire sub mechanism purview
           = Inr (if np_sum cjd \<noteq> 0 then divide_scalar cjd (np_sum cjd) else cjd)"
proof -
  have m: "sort_key node_index (dedup_nodes mechanism) \<noteq> []"
    using validate_nodelist_set(2)[of mechanism] assms(1) by (simp add: validate_nodelist_def)
  have p: "sort_key node_index (dedup_nodes purview) \<noteq> []"
    using validate_nodelist_set(2)[of purview] assms(2) by (simp add: validate_nodelist_def)
  show ?thesis
    using m p assms(3) by (simp add: cause_repertoire_def validate_nodelist_def Let_def)
qed

text \<open>
  Claim C8. For a network whose transition tensor holds probabilities, and a mechanism
  and a purview of nodes built for it, in both directions:

  \<^item> an empty purview yields the repertoire with the single entry 1: the array
    \<^verbatim>\<open>np.array([1])\<close>, and for the cause repertoire of the empty mechanism the maximum
    entropy distribution over no node, whose single entry is 1;

  \<^item> every effect repertoire that is returned sums to 1, and every cause repertoire that
    is returned sums to 1 or is the zero tensor;

  \<^item> once the loop of \<^verbatim>\<open>cause_repertoire\<close> has built the conditional joint distribution,
    the function returns: the distribution divided by its sum, which sums to 1, when
    the sum is not 0, and the distribution itself, which is the zero tensor, when the
    sum is 0. Nothing is raised for a sum of 0.
\<close>

theorem repertoires_sum_to_one:
  assumes "well_formed_network (subsystem_network sub)"
      and "list_all (constructed (subsystem_network sub)) mechanism"
      and "list_all (constructed (subsystem_network sub)) purview"
  shows "effect_repertoire sub mechanism [] = Inr np_array_1 \<and>
         (mechanism \<noteq> [] \<longrightarrow> cause_repertoire sub mechanism [] = Inr np_array_1) \<and>
         (\<forall>r. cause_repertoire sub [] [] = Inr r \<longrightarrow> data r = [1]) \<and>
         (\<forall>r. effect_repertoire sub mechanism purview = Inr r \<and> purview \<noteq> []
                \<longrightarrow> np_sum r = 1) \<and>
         (\<forall>r. cause_repertoire sub mechanism purview = Inr r \<and> purview \<noteq> []
                \<longrightarrow> np_sum r = 1 \<or> list_all (\<lambda>v. v = 0) (data r)) \<and>
         (\<forall>cjd. mechanism \<noteq> [] \<and> purview \<noteq> [] \<and>
                 cause_cjd sub (sort_key node_index (dedup_nodes mechanism))
                   (sort_key node_index (dedup_nodes purview)) = Inr cjd
                \<longrightarrow> (np_sum cjd \<noteq> 0 \<longrightarrow>
                       cause_repertoire sub mechanism purview
                         = Inr (divide_scalar cjd (np_sum cjd)) \<and>
                       np_sum (divide_scalar cjd (np_sum cjd)) = 1) \<and>
                    (np_sum cjd = 0 \<longrightarrow>
                       cause_repertoire sub mechanism purview = Inr cjd \<and>
                       list_all (\<lambda>v. v = 0) (data cjd)))"
proof (intro conjI allI impI)
  show "effect_repertoire sub mechanism [] = Inr np_array_1"
    by (rule effect_repertoire_empty_purview)
next
  assume "mechanism \<noteq> []"
  then show "cause_repertoire sub mechanism [] = Inr np_array_1"
    by (rule cause_repertoire_empty_purview)
next
  fix r assume "cause_repertoire sub [] [] = Inr r"
  then show "data r = [1]"
    unfolding cause_repertoire_empty_mechanism by (simp add: max_entropy_distribution_empty)
next
  fix r assume "effect_repertoire sub mechanism purview = Inr r \<and> purview \<noteq> []"
  then show "np_sum r = 1"
    using effect_repertoire_sums[OF assms(1,3)] by blast
next
  fix r assume h: "cause_repertoire sub mechanism purview = Inr r \<and> purview \<noteq> []"
  show "np_sum r = 1 \<or> list_all (\<lambda>v. v = 0) (data r)"
  proof (cases "mechanism = []")
    case True
    with h have "max_entropy_distribution (sort_key node_index (dedup_nodes purview))
                   (subsystem_network sub) = Inr r"
      by (simp add: cause_repertoire_empty_mechanism)
    then show ?thesis by (simp add: max_entropy_distribution_sum)
  next
    case False
    from cause_repertoire_normalised[OF assms(1,2) _ False] h show ?thesis by blast
  qed
next
  fix cjd
  assume h: "mechanism \<noteq> [] \<and> purview \<noteq> [] \<and>
             cause_cjd sub (sort_key node_index (dedup_nodes mechanism))
               (sort_key node_index (dedup_nodes purview)) = Inr cjd"
  then have c: "cause_repertoire sub mechanism purview
           = Inr (if np_sum cjd \<noteq> 0 then divide_scalar cjd (np_sum cjd) else cjd)"
    by (intro cause_repertoire_from_cjd) simp_all
  {
    assume nz: "np_sum cjd \<noteq> 0"
    show "cause_repertoire sub mechanism purview = Inr (divide_scalar cjd (np_sum cjd))"
      using c nz by simp
    show "np_sum (divide_scalar cjd (np_sum cjd)) = 1"
      using nz by (simp add: np_sum_divide_scalar)
  }
  {
    assume z: "np_sum cjd = 0"
    show "cause_repertoire sub mechanism purview = Inr cjd"
      using c z by simp
    have la: "list_all (constructed (subsystem_network sub))
               (sort_key node_index (dedup_nodes mechanism))"
      using constructed_validated[OF assms(2)] by (simp add: list_all_iff)
    from h have cj: "cause_cjd sub (sort_key node_index (dedup_nodes mechanism))
               (sort_key node_index (dedup_nodes purview)) = Inr cjd" by simp
    have "nonneg_array (network_size (subsystem_network sub)) cjd"
      by (rule nonneg_array_cause_cjd[OF assms(1) la cj])
    then show "list_all (\<lambda>v. v = 0) (data cjd)"
      using z by (rule nonneg_array_zero_sum)
  }
qed

theorem repertoires_sum_to_one_witness:
  "well_formed_network (subsystem_network copy_subsystem) \<and>
   list_all (constructed (subsystem_network copy_subsystem)) (subsystem_nodes copy_subsystem) \<and>
   subsystem_nodes copy_subsystem \<noteq> [] \<and>
   effect_repertoire copy_subsystem (subsystem_nodes copy_subsystem) (subsystem_nodes copy_subsystem)
     = Inr \<lparr>shape = [2, 2], data = [0, 1, 0, 0]\<rparr> \<and>
   np_sum \<lparr>shape = [2, 2], data = [0, 1, 0, 0]\<rparr> = 1 \<and>
   well_formed_network (subsystem_network chain_on_subsystem) \<and>
   list_all (constructed (subsystem_network chain_on_subsystem)) (subsystem_nodes chain_on_subsystem) \<and>
   cause_cjd chain_on_subsystem
       (sort_key node_index (dedup_nodes (subsystem_nodes chain_on_subsystem)))
       (sort_key node_index (dedup_nodes (subsystem_nodes chain_on_subsystem)))
     = Inr \<lparr>shape = [2, 2], data = [0, 0, 0, 0]\<rparr> \<and>
   cause_repertoire chain_on_subsystem (subsystem_nodes chain_on_subsystem)
       (subsystem_nodes chain_on_subsystem)
     = Inr \<lparr>shape = [2, 2], data = [0, 0, 0, 0]\<rparr>"
proof -
  have w1: "well_formed_network (subsystem_network copy_subsystem)" by code_simp
  have c1: "list_all (constructed (subsystem_network copy_subsystem)) (subsystem_nodes copy_subsystem)"
    by code_simp
  have n1: "subsystem_nodes copy_subsystem \<noteq> []" by code_simp
  have e1: "effect_repertoire copy_subsystem (subsystem_nodes copy_subsystem)
              (subsystem_nodes copy_subsystem) = Inr \<lparr>shape = [2, 2], data = [0, 1, 0, 0]\<rparr>"
    by code_simp
  have w2: "well_formed_network (subsystem_network chain_on_subsystem)" by code_simp
  have c2: "list_all (constructed (subsystem_network chain_on_subsystem))
              (subsystem_nodes chain_on_subsystem)"
    by code_simp
  have n2: "subsystem_nodes chain_on_subsystem \<noteq> []" by code_simp
  have j2: "cause_cjd chain_on_subsystem
              (sort_key node_index (dedup_nodes (subsystem_nodes chain_on_subsystem)))
              (sort_key node_index (dedup_nodes (subsystem_nodes chain_on_subsystem)))
            = Inr \<lparr>shape = [2, 2], data = [0, 0, 0, 0]\<rparr>"
    by code_simp
  have z2: "np_sum \<lparr>shape = [2, 2], data = [0, 0, 0, 0]\<rparr> = 0"
    by (simp add: np_sum_def)
  note T1 = repertoires_sum_to_one[OF w1 c1 c1]
  note T2 = repertoires_sum_to_one[OF w2 c2 c2]
  have s1: "np_sum \<lparr>shape = [2, 2], data = [0, 1, 0, 0]\<rparr> = 1"
    using T1[THEN conjunct2, THEN conjunct2, THEN conjunct2, THEN conjunct1] e1 n1 by blast
  have r2: "cause_repertoire chain_on_subsystem (subsystem_nodes chain_on_subsystem)
              (subsystem_nodes chain_on_subsystem)
            = Inr \<lparr>shape = [2, 2], data = [0, 0, 0, 0]\<rparr>"
    using T2[THEN conjunct2, THEN conjunct2, THEN conjunct2, THEN conjunct2, THEN conjunct2]
      n2 j2 z2 by blast
  show ?thesis by (intro conjI w1 c1 n1 e1 s1 w2 c2 j2 r2)
qed

end
